theory Spec2Isabelle
  imports Main
begin

section \<open>Python values used by the crontab helper\<close>

text \<open>
  The development embeds \<^verbatim>\<open>tomodachi/helpers/crontab.py\<close>. Exceptions are values:
  every \<^verbatim>\<open>raise\<close> of the source and every exception of a library call it makes is a
  branch that returns \<open>Inl\<close> of an \<open>error\<close>.
\<close>

datatype cron_type = Minute | Hour | Day | Month | Isoweekday | Year

datatype error =
    ValueError
  | IndexError
  | ZeroDivisionError
  | IllegalMonthError
  | InvalidValues cron_type
  | DaysOutOfScope

text \<open>
  \<open>InvalidValues t\<close> is \<^verbatim>\<open>Exception('Invalid cron notation: invalid values for t')\<close>,
  \<open>DaysOutOfScope\<close> is \<^verbatim>\<open>Exception('Invalid cron notation: days out of scope')\<close>.
\<close>

definition ebind :: "error + 'a \<Rightarrow> ('a \<Rightarrow> error + 'b) \<Rightarrow> error + 'b" where
  "ebind m f = (case m of Inl e \<Rightarrow> Inl e | Inr x \<Rightarrow> f x)"

subsection \<open>Strings\<close>

text \<open>
  A schedule string is a \<open>string\<close> whose characters are the code points below 256.
  \<open>is_space\<close> lists the code points below 256 for which Python's \<^verbatim>\<open>str.isspace\<close> holds;
  \<open>py_split_ws\<close> is \<^verbatim>\<open>str.split()\<close>, \<open>py_split sep\<close> is \<^verbatim>\<open>str.split(sep)\<close> for a
  one-character separator, \<open>py_strip\<close> is \<^verbatim>\<open>str.strip()\<close> and \<open>py_lower\<close> is
  \<^verbatim>\<open>str.lower()\<close>.
\<close>

definition is_space :: "char \<Rightarrow> bool" where
  "is_space c = (c \<in> set [CHR 0x09, CHR 0x0A, CHR 0x0B, CHR 0x0C, CHR 0x0D,
                          CHR 0x1C, CHR 0x1D, CHR 0x1E, CHR 0x1F, CHR 0x20,
                          CHR 0x85, CHR 0xA0])"

function py_split_ws :: "string \<Rightarrow> string list" where
  "py_split_ws [] = []"
| "py_split_ws (c # cs) =
     (if is_space c then py_split_ws cs
      else (c # takeWhile (\<lambda>x. \<not> is_space x) cs)
             # py_split_ws (dropWhile (\<lambda>x. \<not> is_space x) cs))"
  by pat_completeness auto
termination
  by (relation "measure length") (auto simp: length_dropWhile_le less_Suc_eq_le)

fun py_split :: "char \<Rightarrow> string \<Rightarrow> string list" where
  "py_split sep [] = [[]]"
| "py_split sep (c # cs) =
     (if c = sep then [] # py_split sep cs
      else (case py_split sep cs of
              [] \<Rightarrow> [[c]]
            | w # ws \<Rightarrow> (c # w) # ws))"

definition py_strip :: "string \<Rightarrow> string" where
  "py_strip s = rev (dropWhile is_space (rev (dropWhile is_space s)))"

definition upper_chars :: "char list" where
  "upper_chars = ''ABCDEFGHIJKLMNOPQRSTUVWXYZ'' @
     [CHR 0xC0, CHR 0xC1, CHR 0xC2, CHR 0xC3, CHR 0xC4, CHR 0xC5, CHR 0xC6, CHR 0xC7,
      CHR 0xC8, CHR 0xC9, CHR 0xCA, CHR 0xCB, CHR 0xCC, CHR 0xCD, CHR 0xCE, CHR 0xCF,
      CHR 0xD0, CHR 0xD1, CHR 0xD2, CHR 0xD3, CHR 0xD4, CHR 0xD5, CHR 0xD6,
      CHR 0xD8, CHR 0xD9, CHR 0xDA, CHR 0xDB, CHR 0xDC, CHR 0xDD, CHR 0xDE]"

definition lower_chars :: "char list" where
  "lower_chars = ''abcdefghijklmnopqrstuvwxyz'' @
     [CHR 0xE0, CHR 0xE1, CHR 0xE2, CHR 0xE3, CHR 0xE4, CHR 0xE5, CHR 0xE6, CHR 0xE7,
      CHR 0xE8, CHR 0xE9, CHR 0xEA, CHR 0xEB, CHR 0xEC, CHR 0xED, CHR 0xEE, CHR 0xEF,
      CHR 0xF0, CHR 0xF1, CHR 0xF2, CHR 0xF3, CHR 0xF4, CHR 0xF5, CHR 0xF6,
      CHR 0xF8, CHR 0xF9, CHR 0xFA, CHR 0xFB, CHR 0xFC, CHR 0xFD, CHR 0xFE]"

definition py_lower_char :: "char \<Rightarrow> char" where
  "py_lower_char c =
     (case map_of (zip upper_chars lower_chars) c of Some l \<Rightarrow> l | None \<Rightarrow> c)"

definition py_lower :: "string \<Rightarrow> string" where
  "py_lower s = map py_lower_char s"

subsection \<open>\<^verbatim>\<open>int(str)\<close>\<close>

text \<open>
  \<^verbatim>\<open>int(s)\<close> for a string: surrounding whitespace is stripped, one sign is allowed, then
  decimal digits follow, where single underscores may stand between digits. Anything else
  raises \<^verbatim>\<open>ValueError\<close>. (Below code point 256 the only decimal digits are 0 to 9.)
\<close>

definition digit_value :: "char \<Rightarrow> int option" where
  "digit_value c =
     map_of [(CHR ''0'', 0), (CHR ''1'', 1), (CHR ''2'', 2), (CHR ''3'', 3), (CHR ''4'', 4),
             (CHR ''5'', 5), (CHR ''6'', 6), (CHR ''7'', 7), (CHR ''8'', 8), (CHR ''9'', 9)] c"

fun parse_digits :: "int \<Rightarrow> string \<Rightarrow> int option" where
  "parse_digits acc [] = Some acc"
| "parse_digits acc [c] =
     (case digit_value c of None \<Rightarrow> None | Some v \<Rightarrow> Some (acc * 10 + v))"
| "parse_digits acc (c # c' # cs) =
     (case digit_value c of
        Some v \<Rightarrow> parse_digits (acc * 10 + v) (c' # cs)
      | None \<Rightarrow>
          (if c = CHR ''_'' \<and> digit_value c' \<noteq> None then parse_digits acc (c' # cs)
           else None))"

definition parse_unsigned :: "string \<Rightarrow> int option" where
  "parse_unsigned s =
     (case s of
        [] \<Rightarrow> None
      | c # cs \<Rightarrow> (if digit_value c = None then None else parse_digits 0 s))"

definition py_int :: "string \<Rightarrow> error + int" where
  "py_int s =
     (let t = py_strip s;
          r = (case t of
                 [] \<Rightarrow> None
               | c # cs \<Rightarrow>
                   (if c = CHR ''+'' then parse_unsigned cs
                    else if c = CHR ''-'' then map_option uminus (parse_unsigned cs)
                    else parse_unsigned t))
      in case r of None \<Rightarrow> Inl ValueError | Some n \<Rightarrow> Inr n)"

text \<open>
  \<^verbatim>\<open>int(aliases.get(a, a))\<close>: an alias yields its number, any other string goes through
  \<^verbatim>\<open>int\<close>.
\<close>

definition resolve :: "(string \<times> int) list \<Rightarrow> string \<Rightarrow> error + int" where
  "resolve aliases a = (case map_of aliases a of Some n \<Rightarrow> Inr n | None \<Rightarrow> py_int a)"

section \<open>Parsing the notation\<close>

subsection \<open>The tables\<close>

type_synonym attr = "cron_type \<times> (int \<times> int) \<times> (string \<times> int) list"

definition cron_attributes :: "attr list" where
  "cron_attributes =
     [(Minute, (0, 59), []),
      (Hour, (0, 23), []),
      (Day, (1, 31), []),
      (Month, (1, 12),
         [(''jan'', 1), (''feb'', 2), (''mar'', 3), (''apr'', 4), (''may'', 5), (''jun'', 6),
          (''jul'', 7), (''aug'', 8), (''sep'', 9), (''oct'', 10), (''nov'', 11), (''dec'', 12)]),
      (Isoweekday, (0, 6),
         [(''mon'', 1), (''tue'', 2), (''wed'', 3), (''thu'', 4), (''fri'', 5), (''sat'', 6),
          (''sun'', 0)]),
      (Year, (1970, 2099), [])]"

definition crontab_aliases :: "(string \<times> string) list" where
  "crontab_aliases =
     [(''@yearly'', ''0 0 1 1 *''),
      (''@annually'', ''0 0 1 1 *''),
      (''@monthly'', ''0 0 1 * *''),
      (''@weekly'', ''0 0 * * 0''),
      (''@daily'', ''0 0 * * *''),
      (''@hourly'', ''0 * * * *''),
      (''@minutely'', ''* * * * *'')]"

subsection \<open>One term of a field\<close>

text \<open>
  The body of the loop \<^verbatim>\<open>for part in parts\<close> is three steps on the pair
  (\<^verbatim>\<open>last\<close>, \<^verbatim>\<open>possible_values\<close>). \<open>range_part\<close> is the branch \<^verbatim>\<open>if '-' in part\<close>: both
  unpackings raise \<^verbatim>\<open>ValueError\<close> unless the split has exactly two pieces, \<^verbatim>\<open>str(a)[0]\<close>
  raises \<^verbatim>\<open>IndexError\<close> on the empty string, and both \<^verbatim>\<open>int\<close> conversions are outside any
  \<^verbatim>\<open>try\<close>.
\<close>

definition range_part ::
  "int \<times> int \<Rightarrow> (string \<times> int) list \<Rightarrow> string \<Rightarrow> error + (bool \<times> int list)" where
  "range_part cron_range aliases part =
     (let possible_values = [fst cron_range..snd cron_range]
      in if CHR ''-'' \<in> set part then
           (case py_split (CHR ''-'') part of
              [a, b] \<Rightarrow>
                ebind (if CHR ''/'' \<in> set b
                       then (case py_split (CHR ''/'') b of
                               [b', u] \<Rightarrow> Inr b'
                             | _ \<Rightarrow> Inl ValueError)
                       else Inr b)
                  (\<lambda>b. case a of
                          [] \<Rightarrow> Inl IndexError
                        | c # a' \<Rightarrow>
                            (let is_last = (c = CHR ''l'');
                                 a = (if is_last then a' else a)
                             in ebind (resolve aliases a)
                                  (\<lambda>ai. ebind (resolve aliases b)
                                    (\<lambda>bi. Inr (is_last,
                                       filter (\<lambda>x. x \<ge> min ai bi \<and> x \<le> max ai bi)
                                         possible_values)))))
            | _ \<Rightarrow> Inl ValueError)
         else Inr (False, possible_values))"

text \<open>
  A comprehension \<^verbatim>\<open>[x for x in possible_values if x % b == ...]\<close> evaluates \<^verbatim>\<open>%\<close> once
  per element, so a zero divisor raises \<^verbatim>\<open>ZeroDivisionError\<close> unless the list is empty.
  Python's \<^verbatim>\<open>%\<close> on integers is HOL's \<open>mod\<close> on \<open>int\<close> for a non-zero divisor (the result
  has the sign of the divisor).
\<close>

definition filter_congruent :: "int list \<Rightarrow> int \<Rightarrow> int \<Rightarrow> error + int list" where
  "filter_congruent possible_values a b =
     (if possible_values \<noteq> [] \<and> b = 0 then Inl ZeroDivisionError
      else Inr (filter (\<lambda>x. x mod b = a mod b) possible_values))"

definition filter_multiple :: "int list \<Rightarrow> int \<Rightarrow> error + int list" where
  "filter_multiple possible_values b =
     (if possible_values \<noteq> [] \<and> b = 0 then Inl ZeroDivisionError
      else Inr (filter (\<lambda>x. x mod b = 0) possible_values))"

text \<open>
  \<open>step_part\<close> is the branch \<^verbatim>\<open>if '/' in part\<close>. The \<^verbatim>\<open>except ValueError\<close> handler is
  reached when \<^verbatim>\<open>int\<close> fails on \<^verbatim>\<open>a\<close> or on \<^verbatim>\<open>b\<close>; in both cases \<^verbatim>\<open>b\<close> is still the string,
  and when the handler is reached \<^verbatim>\<open>a\<close> is compared with \<^verbatim>\<open>'*'\<close> and \<^verbatim>\<open>'?'\<close> only after
  \<^verbatim>\<open>int(b)\<close> has succeeded, which means that \<^verbatim>\<open>a\<close> is still the string too.
\<close>

definition step_part ::
  "(string \<times> int) list \<Rightarrow> string \<Rightarrow> int list \<Rightarrow> error + int list" where
  "step_part aliases part possible_values =
     (if CHR ''/'' \<in> set part then
        (case py_split (CHR ''/'') part of
           [a, b] \<Rightarrow>
             (let handler =
                    ebind (py_int b)
                      (\<lambda>bi. if a \<in> set [''*'', ''?''] then filter_multiple possible_values bi
                            else (case py_split (CHR ''-'') part of
                                    [a', u] \<Rightarrow>
                                      ebind (resolve aliases a')
                                        (\<lambda>ai. filter_congruent possible_values ai bi)
                                  | _ \<Rightarrow> Inl ValueError))
              in case resolve aliases a of
                   Inr ai \<Rightarrow>
                     (case py_int b of
                        Inr bi \<Rightarrow> filter_congruent possible_values ai bi
                      | Inl e \<Rightarrow> handler)
                 | Inl e \<Rightarrow> handler)
         | _ \<Rightarrow> Inl ValueError)
      else Inr possible_values)"

text \<open>
  \<open>exact_part\<close> is the last \<^verbatim>\<open>try\<close>: \<^verbatim>\<open>part[0]\<close> raises \<^verbatim>\<open>IndexError\<close> on an empty term
  (it is not caught), and a \<^verbatim>\<open>ValueError\<close> of \<^verbatim>\<open>int\<close> is swallowed by \<^verbatim>\<open>pass\<close>, which
  leaves \<^verbatim>\<open>possible_values\<close> as it was and keeps the assignment to \<^verbatim>\<open>last\<close>.
\<close>

definition exact_part ::
  "(string \<times> int) list \<Rightarrow> string \<Rightarrow> bool \<Rightarrow> int list \<Rightarrow> error + (bool \<times> int list)" where
  "exact_part aliases part is_last possible_values =
     (case part of
        [] \<Rightarrow> Inl IndexError
      | c # rest \<Rightarrow>
          (let is_last' = (if c = CHR ''l'' then True else is_last);
               part' = (if c = CHR ''l'' then rest else part)
           in case resolve aliases part' of
                Inr a \<Rightarrow> Inr (is_last', filter (\<lambda>x. x = a) possible_values)
              | Inl e \<Rightarrow> Inr (is_last', possible_values)))"

definition parse_part :: "attr \<Rightarrow> string \<Rightarrow> error + (bool \<times> int list)" where
  "parse_part attr part =
     (case attr of (cron_type, cron_range, aliases) \<Rightarrow>
        ebind (range_part cron_range aliases part)
          (\<lambda>(is_last, possible_values).
             ebind (step_part aliases part possible_values)
               (\<lambda>possible_values.
                  ebind (exact_part aliases part is_last possible_values)
                    (\<lambda>(is_last, possible_values).
                       if possible_values = [] then Inl (InvalidValues cron_type)
                       else Inr (is_last, possible_values)))))"

subsection \<open>The six fields\<close>

text \<open>
  A \<open>schedule\<close> is what the parsing loop leaves in \<^verbatim>\<open>values\<close>, \<^verbatim>\<open>last_day\<close> and
  \<^verbatim>\<open>last_weekday\<close>. Each entry of \<^verbatim>\<open>values\<close> is the list \<^verbatim>\<open>available_values\<close> that the source
  turns into a \<^verbatim>\<open>set\<close>: the source takes \<^verbatim>\<open>min\<close> of it, tests membership and filters it,
  none of which depends on order or repetition, so the list stands for the set and
  \<open>set (values s ! i)\<close> is the Python set.
\<close>

record schedule =
  "values" :: "int list list"
  last_day :: bool
  last_weekday :: bool

fun parse_parts ::
  "attr \<Rightarrow> string list \<Rightarrow> bool \<times> bool \<times> int list \<Rightarrow> error + (bool \<times> bool \<times> int list)" where
  "parse_parts attr [] st = Inr st"
| "parse_parts attr (part # parts) (ld, lw, available_values) =
     ebind (parse_part attr part)
       (\<lambda>(is_last, possible_values).
          parse_parts attr parts
            (ld \<or> (is_last \<and> fst attr = Day),
             lw \<or> (is_last \<and> fst attr = Isoweekday),
             available_values @ possible_values))"

fun parse_attrs :: "string list \<Rightarrow> (nat \<times> attr) list \<Rightarrow> schedule \<Rightarrow> error + schedule" where
  "parse_attrs cron_parts [] s = Inr s"
| "parse_attrs cron_parts ((i, attr) # rest) s =
     (if i < length cron_parts then
        ebind (parse_parts attr (py_split (CHR '','') (py_lower (cron_parts ! i)))
                 (last_day s, last_weekday s, []))
          (\<lambda>(ld, lw, available_values).
             parse_attrs cron_parts rest
               \<lparr>values = values s @ [available_values], last_day = ld, last_weekday = lw\<rparr>)
      else Inl IndexError)"

definition split_notation :: "string \<Rightarrow> string list" where
  "split_notation crontab_notation =
     (let crontab_notation = (case map_of crontab_aliases crontab_notation of
                        Some expansion \<Rightarrow> expansion
                      | None \<Rightarrow> crontab_notation);
          cron_parts = filter (\<lambda>c. py_strip c \<noteq> []) (py_split_ws crontab_notation)
      in cron_parts @ replicate (length cron_attributes - length cron_parts) ''*'')"

definition parse_fields :: "string \<Rightarrow> error + schedule" where
  "parse_fields crontab_notation =
     parse_attrs (split_notation crontab_notation) (enumerate 0 cron_attributes)
       \<lparr>values = [], last_day = False, last_weekday = False\<rparr>"

text \<open>
  The feasibility check that follows the parsing loop. \<^verbatim>\<open>min\<close> of an empty set raises
  \<^verbatim>\<open>ValueError\<close>; the list inside \<^verbatim>\<open>any\<close> is built in full, so \<^verbatim>\<open>monthrange\<close> is called for
  every pair.
\<close>

definition is_leap :: "int \<Rightarrow> bool" where
  "is_leap y = (y mod 4 = 0 \<and> (y mod 100 \<noteq> 0 \<or> y mod 400 = 0))"

definition days_in_month :: "int \<Rightarrow> int \<Rightarrow> int" where
  "days_in_month y m =
     (if m = 2 then (if is_leap y then 29 else 28)
      else if m \<in> set [4, 6, 9, 11] then 30 else 31)"

definition monthrange_days :: "int \<Rightarrow> int \<Rightarrow> error + int" where
  "monthrange_days y m =
     (if 1 \<le> m \<and> m \<le> 12 then Inr (days_in_month y m) else Inl IllegalMonthError)"

fun month_lengths :: "(int \<times> int) list \<Rightarrow> error + int list" where
  "month_lengths [] = Inr []"
| "month_lengths ((y, m) # rest) =
     ebind (monthrange_days y m) (\<lambda>n. ebind (month_lengths rest) (\<lambda>ns. Inr (n # ns)))"

definition check_days :: "schedule \<Rightarrow> error + schedule" where
  "check_days s =
     (case values s ! 2 of
        [] \<Rightarrow> Inl ValueError
      | v # vs \<Rightarrow>
          (let min_day = fold min vs v
           in if min_day \<ge> 28 then
                ebind (month_lengths
                         (concat (map (\<lambda>y. map (\<lambda>m. (y, m)) (values s ! 3)) (values s ! 5))))
                  (\<lambda>ns. if \<not> list_ex (\<lambda>n. n \<ge> min_day) ns then Inl DaysOutOfScope
                        else Inr s)
              else Inr s))"

definition parse_schedule :: "string \<Rightarrow> error + schedule" where
  "parse_schedule crontab_notation = ebind (parse_fields crontab_notation) check_days"

section \<open>Dates\<close>

text \<open>
  A \<open>datetime\<close> is a naive \<^verbatim>\<open>datetime.datetime\<close>: the reference instants of this
  development carry no \<^verbatim>\<open>tzinfo\<close>. For such a reference \<^verbatim>\<open>calculate_date\<close> localises every
  date it builds in \<^verbatim>\<open>pytz.UTC\<close>, which keeps the seven fields and cannot fail, and strips
  the zone again before it returns; so the fields are all there is to follow.
  \<open>mk_datetime\<close> is the constructor called with five arguments: it raises \<^verbatim>\<open>ValueError\<close>
  outside the ranges of the \<^verbatim>\<open>datetime\<close> module (years 1 to 9999).
\<close>

record datetime =
  year :: int
  month :: int
  day :: int
  hour :: int
  minute :: int
  second :: int
  microsecond :: int

definition valid_datetime :: "datetime \<Rightarrow> bool" where
  "valid_datetime d =
     (1 \<le> year d \<and> year d \<le> 9999 \<and> 1 \<le> month d \<and> month d \<le> 12 \<and>
      1 \<le> day d \<and> day d \<le> days_in_month (year d) (month d) \<and>
      0 \<le> hour d \<and> hour d \<le> 23 \<and> 0 \<le> minute d \<and> minute d \<le> 59 \<and>
      0 \<le> second d \<and> second d \<le> 59 \<and> 0 \<le> microsecond d \<and> microsecond d \<le> 999999)"

definition mk_datetime :: "int \<Rightarrow> int \<Rightarrow> int \<Rightarrow> int \<Rightarrow> int \<Rightarrow> error + datetime" where
  "mk_datetime y m d h mi =
     (if 1 \<le> y \<and> y \<le> 9999 \<and> 1 \<le> m \<and> m \<le> 12 \<and> 1 \<le> d \<and> d \<le> days_in_month y m \<and>
         0 \<le> h \<and> h \<le> 23 \<and> 0 \<le> mi \<and> mi \<le> 59
      then Inr \<lparr>year = y, month = m, day = d, hour = h, minute = mi,
                second = 0, microsecond = 0\<rparr>
      else Inl ValueError)"

text \<open>
  The proleptic Gregorian ordinal and \<^verbatim>\<open>isoweekday()\<close> as the \<^verbatim>\<open>datetime\<close> module computes
  them; the days before a month are the sum of the lengths of the months before it.
\<close>

definition days_before_year :: "int \<Rightarrow> int" where
  "days_before_year y = (y - 1) * 365 + (y - 1) div 4 - (y - 1) div 100 + (y - 1) div 400"

definition days_before_month :: "int \<Rightarrow> int \<Rightarrow> int" where
  "days_before_month y m = sum_list (map (days_in_month y) [1..m - 1])"

definition toordinal :: "datetime \<Rightarrow> int" where
  "toordinal d = days_before_year (year d) + days_before_month (year d) (month d) + day d"

definition isoweekday :: "datetime \<Rightarrow> int" where
  "isoweekday d = (if toordinal d mod 7 = 0 then 7 else toordinal d mod 7)"

text \<open>
  Naive datetimes compare as the tuples of their fields; \<^verbatim>\<open>min\<close> of a list keeps the first
  of several equal minima.
\<close>

fun tuple_less :: "int list \<Rightarrow> int list \<Rightarrow> bool" where
  "tuple_less [] [] = False"
| "tuple_less [] (y # ys) = True"
| "tuple_less (x # xs) [] = False"
| "tuple_less (x # xs) (y # ys) = (x < y \<or> (x = y \<and> tuple_less xs ys))"

definition timetuple :: "datetime \<Rightarrow> int list" where
  "timetuple d = [year d, month d, day d, hour d, minute d, second d, microsecond d]"

definition datetime_less :: "datetime \<Rightarrow> datetime \<Rightarrow> bool" where
  "datetime_less a b = tuple_less (timetuple a) (timetuple b)"

definition datetime_min :: "datetime \<Rightarrow> datetime \<Rightarrow> datetime" where
  "datetime_min d acc = (if datetime_less d acc then d else acc)"

section \<open>The search\<close>

subsection \<open>One pass over the fields\<close>

text \<open>
  \<open>carry_fields\<close> is the loop \<^verbatim>\<open>for i, attr in enumerate(cron_attributes)\<close> inside
  \<^verbatim>\<open>calculate_date\<close>. It ends in one of three ways: all fields were set (\<open>Candidate\<close>),
  the loop was left by \<^verbatim>\<open>break\<close> with \<^verbatim>\<open>next_date = None\<close> (\<open>Abandoned\<close>), or the function
  returned \<^verbatim>\<open>None\<close> at the year (\<open>Exhausted\<close>). \<open>getattr\<close> is never asked for
  \<^verbatim>\<open>isoweekday\<close>, which the loop skips.
\<close>

datatype carried = Candidate datetime | Abandoned | Exhausted

definition getattr :: "datetime \<Rightarrow> cron_type \<Rightarrow> int" where
  "getattr d t =
     (case t of Minute \<Rightarrow> minute d | Hour \<Rightarrow> hour d | Day \<Rightarrow> day d | Month \<Rightarrow> month d
      | Year \<Rightarrow> year d | Isoweekday \<Rightarrow> isoweekday d)"

definition replace_field :: "datetime \<Rightarrow> cron_type \<Rightarrow> int \<Rightarrow> error + datetime" where
  "replace_field d t new_value =
     (let f = (\<lambda>dv. if dv \<noteq> t then getattr d dv else new_value)
      in mk_datetime (f Year) (f Month) (f Day) (f Hour) (f Minute))"

fun carry_fields :: "int list list \<Rightarrow> (nat \<times> attr) list \<Rightarrow> datetime \<Rightarrow> carried" where
  "carry_fields vals [] d = Candidate d"
| "carry_fields vals ((i, attr) # rest) d =
     (if fst attr = Isoweekday then carry_fields vals rest d
      else (case filter (\<lambda>v. v \<ge> getattr d (fst attr)) (vals ! i) of
              [] \<Rightarrow> (if fst attr = Year then Exhausted else Abandoned)
            | v # vs \<Rightarrow>
                (case replace_field d (fst attr) (fold min vs v) of
                   Inl e \<Rightarrow> Abandoned
                 | Inr d' \<Rightarrow> carry_fields vals rest d')))"

text \<open>
  The three filters after the loop. The last one builds a date for each later day of the
  month and compares weekdays, leaving at the first match.
\<close>

fun later_same_weekday :: "datetime \<Rightarrow> int list \<Rightarrow> error + bool" where
  "later_same_weekday c [] = Inr False"
| "later_same_weekday c (i # rest) =
     ebind (mk_datetime (year c) (month c) i 0 0)
       (\<lambda>di. if isoweekday di = isoweekday c then Inr True else later_same_weekday c rest)"

definition attempt :: "int list list \<Rightarrow> bool \<Rightarrow> bool \<Rightarrow> datetime \<Rightarrow> error + carried" where
  "attempt vals ld lw d =
     (case carry_fields vals (enumerate 0 cron_attributes) d of
        Exhausted \<Rightarrow> Inr Exhausted
      | Abandoned \<Rightarrow> Inr Abandoned
      | Candidate c \<Rightarrow>
          (if isoweekday c mod 7 \<notin> set (vals ! 4) then Inr Abandoned
           else ebind (if ld then ebind (monthrange_days (year c) (month c))
                                   (\<lambda>n. Inr (day c \<noteq> n))
                       else Inr False)
                  (\<lambda>not_last.
                     if not_last then Inr Abandoned
                     else if lw then
                       ebind (monthrange_days (year c) (month c))
                         (\<lambda>n. ebind (later_same_weekday c [day c + 1..n])
                                (\<lambda>found. Inr (if found then Abandoned else Candidate c)))
                     else Inr (Candidate c))))"

subsection \<open>The retry loop\<close>

text \<open>
  \<open>next_day\<close> is the nest of \<^verbatim>\<open>try\<close> statements that moves \<^verbatim>\<open>original_date\<close> on: the next
  day of the month, else the first of the next month, else the first of January of the
  next year, whose \<^verbatim>\<open>ValueError\<close> nothing catches.
\<close>

definition next_day :: "datetime \<Rightarrow> error + datetime" where
  "next_day d =
     (case mk_datetime (year d) (month d) (day d + 1) 0 0 of
        Inr d' \<Rightarrow> Inr d'
      | Inl e \<Rightarrow>
          (case mk_datetime (year d) (month d + 1) 1 0 0 of
             Inr d' \<Rightarrow> Inr d'
           | Inl e \<Rightarrow> mk_datetime (year d + 1) 1 1 0 0))"

text \<open>
  The loop ends because \<open>loop_measure\<close>, the number of days that a calendar of 31-day
  months has before the year 2100, gets smaller with every retry that stays below 2100.
\<close>

definition loop_measure :: "datetime \<Rightarrow> nat" where
  "loop_measure d =
     nat ((2100 - year d) * 372 + max 0 (12 - month d) * 31 + max 0 (31 - day d))"

function calculate_loop ::
  "int list list \<Rightarrow> bool \<Rightarrow> bool \<Rightarrow> datetime \<Rightarrow> error + datetime option" where
  "calculate_loop vals ld lw original_date =
     (case attempt vals ld lw original_date of
        Inl e \<Rightarrow> Inl e
      | Inr Exhausted \<Rightarrow> Inr None
      | Inr (Candidate c) \<Rightarrow> Inr (Some c)
      | Inr Abandoned \<Rightarrow>
          (case next_day original_date of
             Inl e \<Rightarrow> Inl e
           | Inr next_date \<Rightarrow>
               (if year next_date \<ge> 2100 then Inr None
                else calculate_loop vals ld lw next_date)))"
  by pat_completeness auto
termination
proof (relation "measure (\<lambda>(vals, ld, lw, d). loop_measure d)")
  show "wf (measure (\<lambda>(vals, ld, lw, d). loop_measure d))" by simp
next
  fix vals :: "int list list" and ld lw :: bool and original_date next_date :: datetime
    and r :: carried
  assume n: "next_day original_date = Inr next_date" and "\<not> 2100 \<le> year next_date"
  then have y': "year next_date < 2100" by simp
  have y: "year original_date < 2100"
    using n y' by (auto simp: next_day_def mk_datetime_def split: if_splits sum.splits)
  consider (a) "next_date = \<lparr>year = year original_date, month = month original_date,
                  day = day original_date + 1, hour = 0, minute = 0, second = 0,
                  microsecond = 0\<rparr>"
               "day original_date + 1 \<le> 31" "0 \<le> day original_date"
               "1 \<le> month original_date" "month original_date \<le> 12"
    | (b) "next_date = \<lparr>year = year original_date, month = month original_date + 1, day = 1,
                  hour = 0, minute = 0, second = 0, microsecond = 0\<rparr>"
               "0 \<le> month original_date" "month original_date \<le> 11"
    | (c) "next_date = \<lparr>year = year original_date + 1, month = 1, day = 1, hour = 0,
                  minute = 0, second = 0, microsecond = 0\<rparr>"
    using n
    by (auto simp: next_day_def mk_datetime_def days_in_month_def
             split: if_splits sum.splits)
  then have "loop_measure next_date < loop_measure original_date"
  proof cases
    case a
    with y show ?thesis unfolding loop_measure_def by (simp add: max_def) linarith?
  next
    case b
    with y show ?thesis unfolding loop_measure_def by (simp add: max_def) linarith?
  next
    case c
    with y show ?thesis unfolding loop_measure_def by (simp add: max_def) linarith?
  qed
  then show "((vals, ld, lw, next_date), (vals, ld, lw, original_date))
      \<in> measure (\<lambda>(vals, ld, lw, d). loop_measure d)"
    by simp
qed

declare calculate_loop.simps [simp del]

definition calculate_date :: "schedule \<Rightarrow> datetime option \<Rightarrow> error + datetime option" where
  "calculate_date s next_date =
     (case next_date of
        None \<Rightarrow> Inr None
      | Some d \<Rightarrow> calculate_loop (values s) (last_day s) (last_weekday s) d)"

subsection \<open>Seeds and the minimum\<close>

text \<open>
  The list of seeds is built in full before any of them is searched, so a constructor that
  raises there ends the call. \<open>now_date\<close> is a seed as it is, with its seconds and
  microseconds.
\<close>

definition optional :: "bool \<Rightarrow> error + datetime \<Rightarrow> error + datetime option" where
  "optional cond made = (if cond then ebind made (\<lambda>d. Inr (Some d)) else Inr None)"

definition seeds :: "datetime \<Rightarrow> error + datetime option list" where
  "seeds now_date =
     ebind (optional (minute now_date < 60 - 1)
              (mk_datetime (year now_date) (month now_date) (day now_date) (hour now_date)
                 (minute now_date + 1)))
       (\<lambda>s1. ebind (optional (hour now_date < 24 - 1)
                      (mk_datetime (year now_date) (month now_date) (day now_date)
                         (hour now_date + 1) 0))
         (\<lambda>s2. ebind (monthrange_days (year now_date) (month now_date))
           (\<lambda>n. ebind (optional (day now_date < n - 1)
                         (mk_datetime (year now_date) (month now_date) (day now_date + 1) 0 0))
             (\<lambda>s3. ebind (optional (month now_date < 12 - 1)
                            (mk_datetime (year now_date) (month now_date + 1) 1 0 0))
               (\<lambda>s4. ebind (mk_datetime (year now_date + 1) 1 1 0 0)
                 (\<lambda>s5. Inr [if second now_date = 0 then Some now_date else None,
                            s1, s2, s3, s4, Some s5]))))))"

fun calculate_dates :: "schedule \<Rightarrow> datetime option list \<Rightarrow> error + datetime option list" where
  "calculate_dates s [] = Inr []"
| "calculate_dates s (d # ds) =
     ebind (calculate_date s d)
       (\<lambda>r. ebind (calculate_dates s ds) (\<lambda>rs. Inr (r # rs)))"

definition get_next_datetime :: "string \<Rightarrow> datetime \<Rightarrow> error + datetime option" where
  "get_next_datetime crontab_notation now_date =
     ebind (parse_schedule crontab_notation)
       (\<lambda>s. ebind (seeds now_date)
         (\<lambda>ds. ebind (calculate_dates s (filter (\<lambda>d. d \<noteq> None) ds))
           (\<lambda>calculated_dates.
              case map the (filter (\<lambda>d. d \<noteq> None) calculated_dates) of
                [] \<Rightarrow> Inr None
              | d # rest \<Rightarrow> Inr (Some (fold datetime_min rest d)))))"

section \<open>Notions used to state the properties\<close>

text \<open>
  \<open>loop_fuel n\<close> is the retry loop cut off after \<open>n\<close> passes: \<open>None\<close> means that the
  loop was still running. It makes "the loop ends within \<open>n\<close> passes" a statement.
\<close>

fun loop_fuel ::
  "nat \<Rightarrow> int list list \<Rightarrow> bool \<Rightarrow> bool \<Rightarrow> datetime \<Rightarrow> (error + datetime option) option" where
  "loop_fuel 0 vals ld lw original_date = None"
| "loop_fuel (Suc n) vals ld lw original_date =
     (case attempt vals ld lw original_date of
        Inl e \<Rightarrow> Some (Inl e)
      | Inr Exhausted \<Rightarrow> Some (Inr None)
      | Inr (Candidate c) \<Rightarrow> Some (Inr (Some c))
      | Inr Abandoned \<Rightarrow>
          (case next_day original_date of
             Inl e \<Rightarrow> Some (Inl e)
           | Inr next_date \<Rightarrow>
               (if year next_date \<ge> 2100 then Some (Inr None)
                else loop_fuel n vals ld lw next_date)))"

text \<open>
  \<open>satisfies s t\<close> says in the words of the specification that the instant \<open>t\<close>, at minute
  granularity, satisfies the schedule \<open>s\<close>: every field is in its set, the weekday
  (0 for Sunday) is admissible, and the two modifiers hold when they are set.
\<close>

definition satisfies :: "schedule \<Rightarrow> datetime \<Rightarrow> bool" where
  "satisfies s t =
     (valid_datetime t \<and> second t = 0 \<and> microsecond t = 0 \<and>
      minute t \<in> set (values s ! 0) \<and> hour t \<in> set (values s ! 1) \<and>
      day t \<in> set (values s ! 2) \<and> month t \<in> set (values s ! 3) \<and>
      isoweekday t mod 7 \<in> set (values s ! 4) \<and> year t \<in> set (values s ! 5) \<and>
      (if last_day s then day t = days_in_month (year t) (month t) else True) \<and>
      (if last_weekday s
       then \<not> list_ex (\<lambda>i. isoweekday (t\<lparr>day := i\<rparr>) = isoweekday t)
                  [day t + 1..days_in_month (year t) (month t)]
       else True))"

text \<open>The schedule that \<^verbatim>\<open>0 0 29 2 *\<close> parses to.\<close>

definition leap_day_schedule :: schedule where
  "leap_day_schedule =
     \<lparr>values = [[0], [0], [29], [2], [0, 1, 2, 3, 4, 5, 6], [1970..2099]],
      last_day = False, last_weekday = False\<rparr>"

text \<open>
  \<open>join_fields\<close> writes fields with one space between them: the schedule string that
  consists of the given fields only.
\<close>

fun join_fields :: "string list \<Rightarrow> string" where
  "join_fields [] = []"
| "join_fields [w] = w"
| "join_fields (w # v # ws) = w @ CHR '' '' # join_fields (v # ws)"

text \<open>
  The reading of the specification's words "every \<open>S\<close>-th value starting at the domain's
  minimum": the minimum, the minimum plus \<open>S\<close>, and so on.
\<close>

definition every_nth_from_min :: "int \<times> int \<Rightarrow> int \<Rightarrow> int list" where
  "every_nth_from_min cron_range s =
     filter (\<lambda>v. (v - fst cron_range) mod s = 0) [fst cron_range..snd cron_range]"

section \<open>Facts about the search\<close>

lemma next_day_measure:
  assumes "next_day d = Inr d'" and "year d' < 2100"
  shows "loop_measure d' < loop_measure d"
proof -
  have y: "year d < 2100"
    using assms by (auto simp: next_day_def mk_datetime_def split: if_splits sum.splits)
  consider (a) "d' = \<lparr>year = year d, month = month d, day = day d + 1, hour = 0, minute = 0,
                      second = 0, microsecond = 0\<rparr>" "day d + 1 \<le> 31" "0 \<le> day d"
               "1 \<le> month d" "month d \<le> 12"
    | (b) "d' = \<lparr>year = year d, month = month d + 1, day = 1, hour = 0, minute = 0,
                second = 0, microsecond = 0\<rparr>" "0 \<le> month d" "month d \<le> 11"
    | (c) "d' = \<lparr>year = year d + 1, month = 1, day = 1, hour = 0, minute = 0,
                second = 0, microsecond = 0\<rparr>"
    using assms(1)
    by (auto simp: next_day_def mk_datetime_def days_in_month_def
             split: if_splits sum.splits)
  then show ?thesis
  proof cases
    case a
    with y show ?thesis unfolding loop_measure_def by (simp add: max_def) linarith?
  next
    case b
    with y show ?thesis unfolding loop_measure_def by (simp add: max_def) linarith?
  next
    case c
    with y show ?thesis unfolding loop_measure_def by (simp add: max_def) linarith?
  qed
qed

lemma fold_min_Min: "fold min vs (v::int) = Min (set (v # vs))"
  by (simp only: Min.set_eq_fold)

lemma filter_fold_min:
  assumes "filter P xs = v # vs"
  shows "fold min vs (v::int) \<in> set xs \<and> P (fold min vs v)
         \<and> (\<forall>u \<in> set xs. P u \<longrightarrow> fold min vs v \<le> u)"
proof -
  have a: "set (v # vs) = {x \<in> set xs. P x}" using assms [symmetric] by simp
  have "Min (set (v # vs)) \<in> set (v # vs)" by (rule Min_in) simp_all
  then have i: "fold min vs v \<in> {x \<in> set xs. P x}" unfolding fold_min_Min a .
  have "\<And>u. u \<in> set (v # vs) \<Longrightarrow> Min (set (v # vs)) \<le> u" by (rule Min_le) simp_all
  then have "\<And>u. u \<in> {x \<in> set xs. P x} \<Longrightarrow> fold min vs v \<le> u" unfolding fold_min_Min a .
  with i show ?thesis by blast
qed

lemma replace_field_result:
  assumes "replace_field d t nv = Inr d'" and "t \<noteq> Isoweekday"
  shows "getattr d' t = nv"
    and "\<And>t'. t' \<noteq> t \<Longrightarrow> t' \<noteq> Isoweekday \<Longrightarrow> getattr d' t' = getattr d t'"
    and "second d' = 0" and "microsecond d' = 0" and "valid_datetime d'"
  using assms
  by (auto simp: replace_field_def mk_datetime_def getattr_def valid_datetime_def Let_def
           split: if_splits cron_type.splits)

lemma carry_fields_Cons:
  assumes "carry_fields vals ((i, (t, rng, al)) # rest) d = r" and "r \<noteq> Abandoned"
    and "t \<noteq> Isoweekday" and "t \<noteq> Year"
  shows "\<exists>v d'. v \<in> set (vals ! i) \<and> getattr d t \<le> v
           \<and> (\<forall>u \<in> set (vals ! i). getattr d t \<le> u \<longrightarrow> v \<le> u)
           \<and> replace_field d t v = Inr d' \<and> carry_fields vals rest d' = r"
proof -
  obtain v vs where f: "filter (\<lambda>v. v \<ge> getattr d t) (vals ! i) = v # vs"
    using assms by (cases "filter (\<lambda>v. v \<ge> getattr d t) (vals ! i)") (auto split: if_splits)
  then obtain d' where r: "replace_field d t (fold min vs v) = Inr d'"
      and c: "carry_fields vals rest d' = r"
    using assms by (auto split: sum.splits)
  from filter_fold_min [OF f] r c show ?thesis by blast
qed

lemma carry_fields_Year:
  assumes "carry_fields vals [(i, (Year, rng, al))] d = r" and "r \<noteq> Abandoned"
    and "second d = 0" and "microsecond d = 0"
  shows "(r = Exhausted \<and> (\<forall>u \<in> set (vals ! i). u < year d))
       \<or> (\<exists>v. v \<in> set (vals ! i) \<and> year d \<le> v
             \<and> (\<forall>u \<in> set (vals ! i). year d \<le> u \<longrightarrow> v \<le> u)
             \<and> r = Candidate (d\<lparr>year := v\<rparr>) \<and> valid_datetime (d\<lparr>year := v\<rparr>))"
proof (cases "filter (\<lambda>v. v \<ge> year d) (vals ! i)")
  case Nil
  then have "\<forall>u \<in> set (vals ! i). u < year d" by (auto simp: filter_empty_conv)
  with Nil assms show ?thesis by (simp add: getattr_def)
next
  case (Cons v vs)
  with assms obtain d' where r: "replace_field d Year (fold min vs v) = Inr d'"
      and c: "r = Candidate d'"
    by (auto simp: getattr_def split: sum.splits)
  have "d' = d\<lparr>year := fold min vs v\<rparr> \<and> valid_datetime d'"
    using r assms(3,4)
    by (auto simp: replace_field_def mk_datetime_def getattr_def valid_datetime_def
             split: if_splits)
  with filter_fold_min [OF Cons] c show ?thesis by auto
qed

lemma carry_prefix:
  assumes "carry_fields vals (enumerate 0 cron_attributes) d = r" and "r \<noteq> Abandoned"
  shows "\<exists>v0 v1 v2 v3 d3.
       v0 \<in> set (vals ! 0) \<and> minute d \<le> v0 \<and> (\<forall>u \<in> set (vals ! 0). minute d \<le> u \<longrightarrow> v0 \<le> u)
     \<and> v1 \<in> set (vals ! 1) \<and> hour d \<le> v1 \<and> (\<forall>u \<in> set (vals ! 1). hour d \<le> u \<longrightarrow> v1 \<le> u)
     \<and> v2 \<in> set (vals ! 2) \<and> day d \<le> v2 \<and> (\<forall>u \<in> set (vals ! 2). day d \<le> u \<longrightarrow> v2 \<le> u)
     \<and> v3 \<in> set (vals ! 3) \<and> month d \<le> v3 \<and> (\<forall>u \<in> set (vals ! 3). month d \<le> u \<longrightarrow> v3 \<le> u)
     \<and> d3 = \<lparr>year = year d, month = v3, day = v2, hour = v1, minute = v0, second = 0,
              microsecond = 0\<rparr>
     \<and> valid_datetime d3 \<and> v2 \<le> days_in_month (year d) (month d)
     \<and> carry_fields vals [(5, (Year, (1970, 2099), []))] d3 = r"
proof -
  let ?al3 = "snd (snd (cron_attributes ! 3))" and ?al4 = "snd (snd (cron_attributes ! 4))"
  have e: "enumerate 0 cron_attributes =
      [(0, (Minute, (0, 59), [])), (1, (Hour, (0, 23), [])), (2, (Day, (1, 31), [])),
       (3, (Month, (1, 12), ?al3)), (4, (Isoweekday, (0, 6), ?al4)), (5, (Year, (1970, 2099), []))]"
    by (simp add: cron_attributes_def enumerate_eq_zip upt_rec)
  have "\<exists>v d'. v \<in> set (vals ! 0) \<and> getattr d Minute \<le> v
           \<and> (\<forall>u \<in> set (vals ! 0). getattr d Minute \<le> u \<longrightarrow> v \<le> u)
           \<and> replace_field d Minute v = Inr d'
           \<and> carry_fields vals [(1, (Hour, (0, 23), [])), (2, (Day, (1, 31), [])), (3, (Month, (1, 12), ?al3)), (4, (Isoweekday, (0, 6), ?al4)), (5, (Year, (1970, 2099), []))] d' = r"
    by (rule carry_fields_Cons [OF assms(1) [unfolded e] assms(2)]) simp_all
  then obtain v0 d0 where s0: "v0 \<in> set (vals ! 0)" "minute d \<le> v0"
      "\<forall>u \<in> set (vals ! 0). minute d \<le> u \<longrightarrow> v0 \<le> u"
      "replace_field d Minute v0 = Inr d0"
      and c0: "carry_fields vals [(1, (Hour, (0, 23), [])), (2, (Day, (1, 31), [])), (3, (Month, (1, 12), ?al3)), (4, (Isoweekday, (0, 6), ?al4)), (5, (Year, (1970, 2099), []))] d0 = r"
    by (auto simp: getattr_def)
  have "\<exists>v d'. v \<in> set (vals ! 1) \<and> getattr d0 Hour \<le> v
           \<and> (\<forall>u \<in> set (vals ! 1). getattr d0 Hour \<le> u \<longrightarrow> v \<le> u)
           \<and> replace_field d0 Hour v = Inr d'
           \<and> carry_fields vals [(2, (Day, (1, 31), [])), (3, (Month, (1, 12), ?al3)), (4, (Isoweekday, (0, 6), ?al4)), (5, (Year, (1970, 2099), []))] d' = r"
    by (rule carry_fields_Cons [OF c0 assms(2)]) simp_all
  then obtain v1 d1 where s1: "v1 \<in> set (vals ! 1)" "hour d0 \<le> v1"
      "\<forall>u \<in> set (vals ! 1). hour d0 \<le> u \<longrightarrow> v1 \<le> u"
      "replace_field d0 Hour v1 = Inr d1"
      and c1: "carry_fields vals [(2, (Day, (1, 31), [])), (3, (Month, (1, 12), ?al3)), (4, (Isoweekday, (0, 6), ?al4)), (5, (Year, (1970, 2099), []))] d1 = r"
    by (auto simp: getattr_def)
  have "\<exists>v d'. v \<in> set (vals ! 2) \<and> getattr d1 Day \<le> v
           \<and> (\<forall>u \<in> set (vals ! 2). getattr d1 Day \<le> u \<longrightarrow> v \<le> u)
           \<and> replace_field d1 Day v = Inr d'
           \<and> carry_fields vals [(3, (Month, (1, 12), ?al3)), (4, (Isoweekday, (0, 6), ?al4)), (5, (Year, (1970, 2099), []))] d' = r"
    by (rule carry_fields_Cons [OF c1 assms(2)]) simp_all
  then obtain v2 d2 where s2: "v2 \<in> set (vals ! 2)" "day d1 \<le> v2"
      "\<forall>u \<in> set (vals ! 2). day d1 \<le> u \<longrightarrow> v2 \<le> u"
      "replace_field d1 Day v2 = Inr d2"
      and c2: "carry_fields vals [(3, (Month, (1, 12), ?al3)), (4, (Isoweekday, (0, 6), ?al4)), (5, (Year, (1970, 2099), []))] d2 = r"
    by (auto simp: getattr_def)
  have "\<exists>v d'. v \<in> set (vals ! 3) \<and> getattr d2 Month \<le> v
           \<and> (\<forall>u \<in> set (vals ! 3). getattr d2 Month \<le> u \<longrightarrow> v \<le> u)
           \<and> replace_field d2 Month v = Inr d'
           \<and> carry_fields vals [(4, (Isoweekday, (0, 6), ?al4)), (5, (Year, (1970, 2099), []))] d' = r"
    by (rule carry_fields_Cons [OF c2 assms(2)]) simp_all
  then obtain v3 d3 where s3: "v3 \<in> set (vals ! 3)" "month d2 \<le> v3"
      "\<forall>u \<in> set (vals ! 3). month d2 \<le> u \<longrightarrow> v3 \<le> u"
      "replace_field d2 Month v3 = Inr d3"
      and c3: "carry_fields vals [(4, (Isoweekday, (0, 6), ?al4)), (5, (Year, (1970, 2099), []))] d3 = r"
    by (auto simp: getattr_def)
  from c3 have c4: "carry_fields vals [(5, (Year, (1970, 2099), []))] d3 = r" by simp
  have f0: "d0 = \<lparr>year = year d, month = month d, day = day d, hour = hour d, minute = v0,
                  second = 0, microsecond = 0\<rparr>"
    using s0(4) by (auto simp: replace_field_def mk_datetime_def getattr_def split: if_splits)
  have f1: "d1 = \<lparr>year = year d, month = month d, day = day d, hour = v1, minute = v0,
                  second = 0, microsecond = 0\<rparr>"
    using s1(4) unfolding f0
    by (auto simp: replace_field_def mk_datetime_def getattr_def split: if_splits)
  have f2: "d2 = \<lparr>year = year d, month = month d, day = v2, hour = v1, minute = v0,
                  second = 0, microsecond = 0\<rparr>" and v2: "v2 \<le> days_in_month (year d) (month d)"
    using s2(4) unfolding f1
    by (auto simp: replace_field_def mk_datetime_def getattr_def split: if_splits)
  have f3: "d3 = \<lparr>year = year d, month = v3, day = v2, hour = v1, minute = v0,
                  second = 0, microsecond = 0\<rparr>" and v3: "valid_datetime d3"
    using s3(4) unfolding f2
    by (auto simp: replace_field_def mk_datetime_def getattr_def valid_datetime_def
             split: if_splits)
  have "v0 \<in> set (vals ! 0) \<and> minute d \<le> v0 \<and> (\<forall>u \<in> set (vals ! 0). minute d \<le> u \<longrightarrow> v0 \<le> u)
     \<and> v1 \<in> set (vals ! 1) \<and> hour d \<le> v1 \<and> (\<forall>u \<in> set (vals ! 1). hour d \<le> u \<longrightarrow> v1 \<le> u)
     \<and> v2 \<in> set (vals ! 2) \<and> day d \<le> v2 \<and> (\<forall>u \<in> set (vals ! 2). day d \<le> u \<longrightarrow> v2 \<le> u)
     \<and> v3 \<in> set (vals ! 3) \<and> month d \<le> v3 \<and> (\<forall>u \<in> set (vals ! 3). month d \<le> u \<longrightarrow> v3 \<le> u)
     \<and> d3 = \<lparr>year = year d, month = v3, day = v2, hour = v1, minute = v0, second = 0,
              microsecond = 0\<rparr>
     \<and> valid_datetime d3 \<and> v2 \<le> days_in_month (year d) (month d)
     \<and> carry_fields vals [(5, (Year, (1970, 2099), []))] d3 = r"
    using s0(1-3) s1(1-3) s2(1-3) s3(1-3) f0 f1 f2 f3 v2 v3 c4
    by (simp del: carry_fields.simps)
  then show ?thesis by - ((rule exI)+, assumption)
qed

lemma carry_candidate:
  assumes "carry_fields vals (enumerate 0 cron_attributes) d = Candidate c"
  shows "valid_datetime c \<and> second c = 0 \<and> microsecond c = 0
     \<and> minute c \<in> set (vals ! 0) \<and> hour c \<in> set (vals ! 1) \<and> day c \<in> set (vals ! 2)
     \<and> month c \<in> set (vals ! 3) \<and> year c \<in> set (vals ! 5)
     \<and> minute d \<le> minute c \<and> hour d \<le> hour c \<and> day d \<le> day c
     \<and> month d \<le> month c \<and> year d \<le> year c
     \<and> (\<forall>u \<in> set (vals ! 5). year d \<le> u \<longrightarrow> year c \<le> u)
     \<and> (\<forall>u \<in> set (vals ! 3). month d \<le> u \<longrightarrow> month c \<le> u)
     \<and> (\<forall>u \<in> set (vals ! 2). day d \<le> u \<longrightarrow> day c \<le> u)
     \<and> (\<forall>u \<in> set (vals ! 1). hour d \<le> u \<longrightarrow> hour c \<le> u)
     \<and> (\<forall>u \<in> set (vals ! 0). minute d \<le> u \<longrightarrow> minute c \<le> u)
     \<and> day c \<le> days_in_month (year d) (month d)
     \<and> day c \<le> days_in_month (year d) (month c)"
proof -
  from carry_prefix [OF assms] obtain v0 v1 v2 v3 d3 where
    p: "v0 \<in> set (vals ! 0)" "minute d \<le> v0" "\<forall>u \<in> set (vals ! 0). minute d \<le> u \<longrightarrow> v0 \<le> u"
       "v1 \<in> set (vals ! 1)" "hour d \<le> v1" "\<forall>u \<in> set (vals ! 1). hour d \<le> u \<longrightarrow> v1 \<le> u"
       "v2 \<in> set (vals ! 2)" "day d \<le> v2" "\<forall>u \<in> set (vals ! 2). day d \<le> u \<longrightarrow> v2 \<le> u"
       "v3 \<in> set (vals ! 3)" "month d \<le> v3" "\<forall>u \<in> set (vals ! 3). month d \<le> u \<longrightarrow> v3 \<le> u"
    and d3: "d3 = \<lparr>year = year d, month = v3, day = v2, hour = v1, minute = v0, second = 0,
              microsecond = 0\<rparr>" "valid_datetime d3" "v2 \<le> days_in_month (year d) (month d)"
    and c: "carry_fields vals [(5, (Year, (1970, 2099), []))] d3 = Candidate c"
    by blast
  from carry_fields_Year [OF c] d3(1) obtain v where
    v: "v \<in> set (vals ! 5)" "year d \<le> v" "\<forall>u \<in> set (vals ! 5). year d \<le> u \<longrightarrow> v \<le> u"
       "c = d3\<lparr>year := v\<rparr>" "valid_datetime (d3\<lparr>year := v\<rparr>)"
    by auto
  have "v2 \<le> days_in_month (year d) v3" using d3(1,2) by (simp add: valid_datetime_def)
  with p d3 v show ?thesis by simp
qed

lemma carry_exhausted:
  assumes "carry_fields vals (enumerate 0 cron_attributes) d = Exhausted"
  shows "\<forall>u \<in> set (vals ! 5). u < year d"
proof -
  from carry_prefix [OF assms] obtain v0 v1 v2 v3 where
    c: "carry_fields vals [(5, (Year, (1970, 2099), []))]
          \<lparr>year = year d, month = v3, day = v2, hour = v1, minute = v0, second = 0,
              microsecond = 0\<rparr> = Exhausted"
    by blast
  from carry_fields_Year [OF c] show ?thesis by auto
qed

lemma attempt_candidate:
  assumes "attempt vals ld lw d = Inr (Candidate c)"
  shows "carry_fields vals (enumerate 0 cron_attributes) d = Candidate c"
    and "isoweekday c mod 7 \<in> set (vals ! 4)"
    and "ld \<Longrightarrow> day c = days_in_month (year c) (month c)"
    and "lw \<Longrightarrow> later_same_weekday c [day c + 1..days_in_month (year c) (month c)] = Inr False"
  using assms
  by (auto simp: attempt_def ebind_def monthrange_days_def
           split: carried.splits if_splits sum.splits)

lemma calculate_loop_Some:
  "calculate_loop vals ld lw d = Inr (Some c) \<Longrightarrow> \<exists>d'. attempt vals ld lw d' = Inr (Candidate c)"
proof (induction vals ld lw d rule: calculate_loop.induct)
  case (1 vals ld lw d)
  show ?case
  proof (cases "attempt vals ld lw d")
    case (Inl e)
    with "1.prems" show ?thesis by (simp add: calculate_loop.simps [of vals ld lw d])
  next
    case (Inr r)
    show ?thesis
    proof (cases r)
      case (Candidate c')
      with Inr "1.prems" show ?thesis
        by (auto simp: calculate_loop.simps [of vals ld lw d])
    next
      case Exhausted
      with Inr "1.prems" show ?thesis by (simp add: calculate_loop.simps [of vals ld lw d])
    next
      case Abandoned
      with Inr "1.prems" obtain nd where nd: "next_day d = Inr nd" "\<not> year nd \<ge> 2100"
          "calculate_loop vals ld lw nd = Inr (Some c)"
        by (auto simp: calculate_loop.simps [of vals ld lw d] split: sum.splits if_splits)
      with "1.IH" [OF Inr Abandoned nd(1) nd(2)] show ?thesis by blast
    qed
  qed
qed

lemma calculate_dates_mem:
  "calculate_dates s ds = Inr rs \<Longrightarrow> r \<in> set rs \<Longrightarrow> \<exists>d \<in> set ds. calculate_date s d = Inr r"
proof (induction ds arbitrary: rs)
  case Nil
  then show ?case by simp
next
  case (Cons d ds)
  then show ?case by (auto simp: ebind_def split: sum.splits)
qed

lemma fold_datetime_min_mem: "fold datetime_min rest d \<in> set (d # rest)"
  by (induction rest arbitrary: d) (auto simp: datetime_min_def)

lemma get_next_datetime_Some:
  assumes "get_next_datetime crontab_notation now_date = Inr (Some t)"
  shows "\<exists>s d. parse_schedule crontab_notation = Inr s
           \<and> calculate_loop (values s) (last_day s) (last_weekday s) d = Inr (Some t)"
proof -
  obtain s where s: "parse_schedule crontab_notation = Inr s"
    using assms
    by (cases "parse_schedule crontab_notation") (simp_all add: get_next_datetime_def ebind_def)
  obtain ds where ds: "seeds now_date = Inr ds"
    using assms s by (cases "seeds now_date") (simp_all add: get_next_datetime_def ebind_def)
  obtain rs where rs: "calculate_dates s (filter (\<lambda>d. d \<noteq> None) ds) = Inr rs"
    using assms s ds
    by (cases "calculate_dates s (filter (\<lambda>d. d \<noteq> None) ds)")
       (simp_all add: get_next_datetime_def ebind_def)
  have t: "(case map the (filter (\<lambda>d. d \<noteq> None) rs) of
                [] \<Rightarrow> Inr None
              | d # rest \<Rightarrow> Inr (Some (fold datetime_min rest d)))
           = (Inr (Some t) :: error + datetime option)"
    using assms s ds rs by (simp add: get_next_datetime_def ebind_def)
  from t obtain d rest where dr: "map the (filter (\<lambda>d. d \<noteq> None) rs) = d # rest"
      and "t = fold datetime_min rest d"
    by (auto split: list.splits)
  then have "t \<in> set (map the (filter (\<lambda>d. d \<noteq> None) rs))"
    using fold_datetime_min_mem [of rest d] by simp
  then have "Some t \<in> set rs" by auto
  from calculate_dates_mem [OF rs this] obtain d0 where "calculate_date s d0 = Inr (Some t)"
    by blast
  then obtain d1 where "calculate_loop (values s) (last_day s) (last_weekday s) d1 = Inr (Some t)"
    by (auto simp: calculate_date_def split: option.splits)
  with s show ?thesis by blast
qed

lemma next_day_valid:
  assumes "valid_datetime d" and "year d < 9999"
  shows "\<exists>d'. next_day d = Inr d' \<and> valid_datetime d'
           \<and> ((year d' = year d \<and> month d \<le> month d')
              \<or> d' = \<lparr>year = year d + 1, month = 1, day = 1, hour = 0, minute = 0, second = 0,
                       microsecond = 0\<rparr>)"
  using assms
  by (auto simp: next_day_def mk_datetime_def valid_datetime_def days_in_month_def
           split: sum.splits if_splits)

lemma calculate_loop_skip:
  assumes inv: "\<And>d. P d \<Longrightarrow> attempt vals ld lw d = Inr Abandoned
                  \<and> (\<exists>d'. next_day d = Inr d' \<and> year d' < 2100 \<and> (P d' \<or> d' = target))"
    and "P d0"
  shows "calculate_loop vals ld lw d0 = calculate_loop vals ld lw target"
  using assms(2)
proof (induction "loop_measure d0" arbitrary: d0 rule: less_induct)
  case less
  from inv [OF less.prems] obtain d' where a: "attempt vals ld lw d0 = Inr Abandoned"
      and n: "next_day d0 = Inr d'" "year d' < 2100" and p: "P d' \<or> d' = target"
    by blast
  have u: "calculate_loop vals ld lw d0 = calculate_loop vals ld lw d'"
    using a n by (simp add: calculate_loop.simps [of vals ld lw d0])
  from p show ?case
  proof
    assume "P d'"
    with less.hyps [OF next_day_measure [OF n]] u show ?thesis by simp
  next
    assume "d' = target"
    with u show ?thesis by simp
  qed
qed

lemma attempt_abandoned:
  assumes "\<exists>u \<in> set (vals ! 5). year d \<le> u"
    and "\<And>c. carry_fields vals (enumerate 0 cron_attributes) d = Candidate c \<Longrightarrow> False"
  shows "attempt vals ld lw d = Inr Abandoned"
proof (cases "carry_fields vals (enumerate 0 cron_attributes) d")
  case (Candidate c)
  with assms(2) show ?thesis by blast
next
  case Abandoned
  then show ?thesis by (simp add: attempt_def)
next
  case Exhausted
  from carry_exhausted [OF this] assms(1) show ?thesis by fastforce
qed

lemma parse_leap_day: "parse_schedule ''0 0 29 2 *'' = Inr leap_day_schedule"
  unfolding leap_day_schedule_def by code_simp

lemma leap_day_values:
  "values leap_day_schedule ! 2 = [29]" "values leap_day_schedule ! 3 = [2]" "set (values leap_day_schedule ! 5) = {1970..2099}"
  by (simp_all add: leap_day_schedule_def del: upto_rec_numeral)

lemma leap_day_abandoned:
  assumes "valid_datetime d" and "1970 \<le> year d" and "year d \<le> 2099"
    and "\<not> is_leap (year d) \<or> 3 \<le> month d"
  shows "attempt (values leap_day_schedule) ld lw d = Inr Abandoned"
proof (rule attempt_abandoned)
  show "\<exists>u \<in> set (values leap_day_schedule ! 5). year d \<le> u"
    unfolding leap_day_values using assms(3) by (intro bexI [of _ 2099]) simp_all
next
  fix c
  assume "carry_fields (values leap_day_schedule) (enumerate 0 cron_attributes) d = Candidate c"
  from carry_candidate [OF this] have c: "valid_datetime c" "day c = 29" "month c = 2"
      "month d \<le> month c" "\<forall>u \<in> {1970..2099}. year d \<le> u \<longrightarrow> year c \<le> u" "year d \<le> year c"
    unfolding leap_day_values by simp_all
  from c(5) assms(2,3) c(6) have "year c = year d" by auto
  with c(1-4) assms(4) show False
    by (auto simp: valid_datetime_def days_in_month_def)
qed


lemma leap_day_skip:
  assumes "valid_datetime d" and "1970 \<le> year d" and "year d < L" and "L \<le> 2099"
    and "\<And>y. year d < y \<Longrightarrow> y < L \<Longrightarrow> \<not> is_leap y"
    and "\<not> is_leap (year d) \<or> 3 \<le> month d"
  shows "calculate_date leap_day_schedule (Some d)
         = calculate_date leap_day_schedule
             (Some \<lparr>year = L, month = 1, day = 1, hour = 0, minute = 0, second = 0,
                    microsecond = 0\<rparr>)"
proof -
  let ?target = "\<lparr>year = L, month = 1, day = 1, hour = 0, minute = 0, second = 0,
                   microsecond = 0\<rparr>"
  let ?P = "\<lambda>x. valid_datetime x
              \<and> ((year x = year d \<and> (\<not> is_leap (year d) \<or> 3 \<le> month x))
                 \<or> (year d < year x \<and> year x < L))"
  have "calculate_loop (values leap_day_schedule) (last_day leap_day_schedule)
          (last_weekday leap_day_schedule) d
        = calculate_loop (values leap_day_schedule) (last_day leap_day_schedule)
            (last_weekday leap_day_schedule) ?target"
  proof (rule calculate_loop_skip [where P = ?P])
    fix x
    assume p: "?P x"
    then have "\<not> is_leap (year x) \<or> 3 \<le> month x" using assms(5) by auto
    with p assms(2,3,4)
    have a: "attempt (values leap_day_schedule) (last_day leap_day_schedule)
               (last_weekday leap_day_schedule) x = Inr Abandoned"
      by (intro leap_day_abandoned) auto
    from p assms(3,4) have "year x < 9999" by auto
    from next_day_valid [OF _ this] p obtain x' where x': "next_day x = Inr x'"
        "valid_datetime x'"
        "(year x' = year x \<and> month x \<le> month x')
          \<or> x' = \<lparr>year = year x + 1, month = 1, day = 1, hour = 0, minute = 0, second = 0,
                   microsecond = 0\<rparr>"
      by blast
    from x'(3) p assms(3,4) have "year x' < 2100" by auto
    moreover from x'(2,3) p assms(3) have "?P x' \<or> x' = ?target"
      by (cases "year x + 1 = L") auto
    ultimately show "attempt (values leap_day_schedule) (last_day leap_day_schedule)
               (last_weekday leap_day_schedule) x = Inr Abandoned
          \<and> (\<exists>d'. next_day x = Inr d' \<and> year d' < 2100 \<and> (?P d' \<or> d' = ?target))"
      using a x'(1) by blast
  next
    show "?P d" using assms(1,6) by simp
  qed
  then show ?thesis by (simp add: calculate_date_def)
qed

lemma leap_day_2024:
  "calculate_date leap_day_schedule
     (Some \<lparr>year = 2024, month = 1, day = 1, hour = 0, minute = 0, second = 0,
            microsecond = 0\<rparr>)
   = Inr (Some \<lparr>year = 2024, month = 2, day = 29, hour = 0, minute = 0, second = 0,
                microsecond = 0\<rparr>)"
  by code_simp

lemma leap_day_2028:
  "calculate_date leap_day_schedule
     (Some \<lparr>year = 2028, month = 1, day = 1, hour = 0, minute = 0, second = 0,
            microsecond = 0\<rparr>)
   = Inr (Some \<lparr>year = 2028, month = 2, day = 29, hour = 0, minute = 0, second = 0,
                microsecond = 0\<rparr>)"
  by code_simp

lemma leap_day_from_2023:
  assumes "valid_datetime d" and "year d = 2023"
  shows "calculate_date leap_day_schedule (Some d)
         = Inr (Some \<lparr>year = 2024, month = 2, day = 29, hour = 0, minute = 0, second = 0,
                      microsecond = 0\<rparr>)"
  using leap_day_skip [of d 2024] assms leap_day_2024 by (simp add: is_leap_def)

lemma leap_day_from_2024:
  assumes "valid_datetime d"
    and "(year d = 2024 \<and> 3 \<le> month d) \<or> year d = 2025"
  shows "calculate_date leap_day_schedule (Some d)
         = Inr (Some \<lparr>year = 2028, month = 2, day = 29, hour = 0, minute = 0, second = 0,
                      microsecond = 0\<rparr>)"
proof -
  have "\<not> is_leap y" if "year d < y" and "y < 2028" for y
  proof -
    from that assms(2) have "y = 2025 \<or> y = 2026 \<or> y = 2027" by auto
    then show ?thesis by (auto simp: is_leap_def)
  qed
  moreover have "\<not> is_leap (year d) \<or> 3 \<le> month d"
    using assms(2) by (auto simp: is_leap_def)
  ultimately show ?thesis
    using leap_day_skip [of d 2028] assms leap_day_2028 by auto
qed

lemma loop_fuel_enough:
  "loop_measure d < n \<Longrightarrow> loop_fuel n vals ld lw d = Some (calculate_loop vals ld lw d)"
proof (induction n arbitrary: d)
  case 0
  then show ?case by simp
next
  case (Suc n)
  show ?case
  proof (cases "attempt vals ld lw d")
    case (Inl e)
    then show ?thesis by (simp add: calculate_loop.simps [of vals ld lw d])
  next
    case (Inr r)
    show ?thesis
    proof (cases r)
      case (Candidate c)
      with Inr show ?thesis by (simp add: calculate_loop.simps [of vals ld lw d])
    next
      case Exhausted
      with Inr show ?thesis by (simp add: calculate_loop.simps [of vals ld lw d])
    next
      case Abandoned
      show ?thesis
      proof (cases "next_day d")
        case (Inl e)
        with Inr Abandoned show ?thesis by (simp add: calculate_loop.simps [of vals ld lw d])
      next
        case nd: (Inr d')
        show ?thesis
        proof (cases "year d' \<ge> 2100")
          case True
          with Inr Abandoned nd show ?thesis
            by (simp add: calculate_loop.simps [of vals ld lw d])
        next
          case False
          then have "loop_measure d' < loop_measure d" using next_day_measure [OF nd] by simp
          with Suc.prems have "loop_measure d' < n" by simp
          from Suc.IH [OF this] Inr Abandoned nd False show ?thesis
            by (simp add: calculate_loop.simps [of vals ld lw d])
        qed
      qed
    qed
  qed
qed

lemma next_day_later:
  assumes "next_day d = Inr d'"
  shows "tuple_less [year d, month d, day d] [year d', month d', day d']"
    and "hour d' = 0" and "minute d' = 0" and "second d' = 0" and "microsecond d' = 0"
  using assms
  by (auto simp: next_day_def mk_datetime_def split: sum.splits if_splits)

lemma days_before_month_Suc:
  "1 \<le> m \<Longrightarrow> days_before_month y (m + 1) = days_before_month y m + days_in_month y m"
  by (simp add: days_before_month_def upto_rec2 [of 1 m])

lemma div_step:
  assumes "0 < (k::int)"
  shows "y div k = (y - 1) div k + (if y mod k = 0 then 1 else 0)"
proof (cases "y mod k = 0")
  case True
  have "y = k * (y div k) + y mod k" by simp
  with True have "y = k * (y div k)" by simp
  then have "y - 1 = k * (y div k - 1) + (k - 1)" by (simp add: algebra_simps)
  then have "(y - 1) div k = y div k - 1"
    using assms by (intro int_div_pos_eq [where r = "k - 1"]) simp_all
  with True show ?thesis by simp
next
  case False
  have "0 \<le> y mod k" "y mod k < k" using assms by simp_all
  with False have r: "0 \<le> y mod k - 1" "y mod k - 1 < k" by simp_all
  have "y - 1 = k * (y div k) + (y mod k - 1)" by (simp add: algebra_simps)
  then have "(y - 1) div k = y div k"
    using r by (intro int_div_pos_eq [where r = "y mod k - 1"]) simp_all
  with False show ?thesis by simp
qed

lemma days_before_year_Suc:
  "days_before_year (y + 1) = days_before_year y + (if is_leap y then 366 else 365)"
proof -
  define p4 p100 p400 where
    p: "p4 = (y mod 4 = 0)" "p100 = (y mod 100 = 0)" "p400 = (y mod 400 = 0)"
  define a b c where abc: "a = (y - 1) div 4" "b = (y - 1) div 100" "c = (y - 1) div 400"
  have imp: "p400 \<Longrightarrow> p100" "p100 \<Longrightarrow> p4"
    unfolding p using dvd_trans [of 100 400 y] dvd_trans [of 4 100 y]
    by (simp_all add: mod_eq_0_iff_dvd)
  have d: "y div 4 = a + (if p4 then 1 else 0)" "y div 100 = b + (if p100 then 1 else 0)"
    "y div 400 = c + (if p400 then 1 else 0)"
    unfolding p abc by (rule div_step, simp)+
  have l: "is_leap y = (p4 \<and> (\<not> p100 \<or> p400))" unfolding is_leap_def p ..
  have "days_before_year (y + 1) = y * 365 + y div 4 - y div 100 + y div 400"
    by (simp only: days_before_year_def add_diff_cancel_right')
  then have 1: "days_before_year (y + 1) = y * 365 + (a + (if p4 then 1 else 0))
      - (b + (if p100 then 1 else 0)) + (c + (if p400 then 1 else 0))"
    by (simp only: d)
  have 2: "days_before_year y = (y - 1) * 365 + a - b + c"
    by (simp only: days_before_year_def abc)
  show ?thesis
    unfolding 1 2 l using imp
    by (cases p4; cases p100; cases p400) (simp_all add: left_diff_distrib)
qed


lemma days_before_month_12: "days_before_month y 12 + 31 = (if is_leap y then 366 else 365)"
  by (simp add: days_before_month_def days_in_month_def upto_rec1)

lemma next_day_ordinal:
  assumes "valid_datetime d" and "next_day d = Inr d'"
  shows "toordinal d' = toordinal d + 1"
proof -
  consider (a) "year d' = year d" "month d' = month d" "day d' = day d + 1"
    | (b) "year d' = year d" "month d' = month d + 1" "day d' = 1"
          "day d = days_in_month (year d) (month d)" "1 \<le> month d"
    | (c) "year d' = year d + 1" "month d' = 1" "day d' = 1" "month d = 12" "day d = 31"
    using assms
    by (auto simp: next_day_def mk_datetime_def valid_datetime_def days_in_month_def
             split: sum.splits if_splits)
  then show ?thesis
  proof cases
    case a
    then show ?thesis by (simp add: toordinal_def)
  next
    case b
    then show ?thesis by (simp add: toordinal_def days_before_month_Suc)
  next
    case c
    have "days_before_month (year d + 1) 1 = 0" by (simp add: days_before_month_def)
    with c days_before_month_12 [of "year d"] days_before_year_Suc [of "year d"]
    show ?thesis by (simp add: toordinal_def split: if_splits)
  qed
qed

section \<open>Facts about the parser\<close>

lemma py_split_hd:
  assumes "py_split sep s = a # rest" and "a \<noteq> []"
  shows "s \<noteq> [] \<and> hd a = hd s"
  using assms by (cases s) (auto split: if_splits list.splits)

lemma range_part_result:
  assumes "range_part rng al part = Inr (l, pv)"
  shows "set pv \<subseteq> {fst rng..snd rng}" and "l \<Longrightarrow> part \<noteq> [] \<and> hd part = CHR ''l''"
proof -
  show "set pv \<subseteq> {fst rng..snd rng}"
    using assms
    by (auto simp: range_part_def ebind_def Let_def split: if_splits list.splits sum.splits)
  show "part \<noteq> [] \<and> hd part = CHR ''l''" if "l"
  proof -
    from assms that obtain a b where s: "py_split (CHR ''-'') part = [a, b]" and "a \<noteq> []"
        and "hd a = CHR ''l''"
      by (auto simp: range_part_def ebind_def Let_def split: if_splits list.splits sum.splits)
    with py_split_hd [of "CHR ''-''" part a "[b]"] show ?thesis by simp
  qed
qed

lemma step_part_result:
  assumes "step_part al part pv = Inr pv'"
  shows "set pv' \<subseteq> set pv"
  using assms
  by (auto simp: step_part_def ebind_def Let_def filter_congruent_def filter_multiple_def
           split: if_splits list.splits sum.splits)

lemma exact_part_result:
  assumes "exact_part al part l pv = Inr (l', pv')"
  shows "set pv' \<subseteq> set pv" and "part \<noteq> []" and "l' = (hd part = CHR ''l'' \<or> l)"
  using assms
  by (auto simp: exact_part_def Let_def split: if_splits list.splits sum.splits)

lemma parse_part_result:
  assumes "parse_part (t, rng, al) part = Inr (l, pv)"
  shows "pv \<noteq> []" and "set pv \<subseteq> {fst rng..snd rng}" and "part \<noteq> []"
    and "l = (hd part = CHR ''l'')"
proof -
  from assms obtain l1 pv1 pv2 where r: "range_part rng al part = Inr (l1, pv1)"
      and s: "step_part al part pv1 = Inr pv2"
      and e: "exact_part al part l1 pv2 = Inr (l, pv)" and n: "pv \<noteq> []"
    by (auto simp: parse_part_def ebind_def split: sum.splits if_splits)
  from n show "pv \<noteq> []" .
  from range_part_result(1) [OF r] step_part_result [OF s] exact_part_result(1) [OF e]
  show "set pv \<subseteq> {fst rng..snd rng}" by blast
  from exact_part_result(2) [OF e] show "part \<noteq> []" .
  from exact_part_result(3) [OF e] range_part_result(2) [OF r]
  show "l = (hd part = CHR ''l'')" by blast
qed

lemma parse_parts_result:
  assumes "parse_parts (t, rng, al) parts (ld, lw, av) = Inr (ld', lw', av')"
  shows "ld' = (ld \<or> (t = Day \<and> (\<exists>p \<in> set parts. hd p = CHR ''l'')))
       \<and> lw' = (lw \<or> (t = Isoweekday \<and> (\<exists>p \<in> set parts. hd p = CHR ''l'')))
       \<and> (\<exists>pvs. av' = av @ pvs \<and> set pvs \<subseteq> {fst rng..snd rng} \<and> (parts \<noteq> [] \<longrightarrow> pvs \<noteq> []))"
  using assms
proof (induction parts arbitrary: ld lw av)
  case Nil
  then show ?case by simp
next
  case (Cons part parts)
  then obtain l pv where p: "parse_part (t, rng, al) part = Inr (l, pv)"
    and r: "parse_parts (t, rng, al) parts
              (ld \<or> (l \<and> t = Day), lw \<or> (l \<and> t = Isoweekday), av @ pv) = Inr (ld', lw', av')"
    by (auto simp: ebind_def split: sum.splits)
  from Cons.IH [OF r] obtain pvs where
    i: "ld' = ((ld \<or> (l \<and> t = Day)) \<or> (t = Day \<and> (\<exists>p \<in> set parts. hd p = CHR ''l'')))"
       "lw' = ((lw \<or> (l \<and> t = Isoweekday))
               \<or> (t = Isoweekday \<and> (\<exists>p \<in> set parts. hd p = CHR ''l'')))"
       "av' = (av @ pv) @ pvs" "set pvs \<subseteq> {fst rng..snd rng}"
    by blast
  note q = parse_part_result [OF p]
  have "av' = av @ (pv @ pvs) \<and> set (pv @ pvs) \<subseteq> {fst rng..snd rng} \<and> pv @ pvs \<noteq> []"
    using i(3,4) q(1,2) by simp
  then have "\<exists>pvs. av' = av @ pvs \<and> set pvs \<subseteq> {fst rng..snd rng}
               \<and> (part # parts \<noteq> [] \<longrightarrow> pvs \<noteq> [])"
    by blast
  with i(1,2) q(4) show ?case by auto
qed

lemma parse_parts_terms:
  "parse_parts attr parts st = Inr r \<Longrightarrow> \<forall>p \<in> set parts. \<exists>r'. parse_part attr p = Inr r'"
proof (induction parts arbitrary: st)
  case Nil
  then show ?case by simp
next
  case (Cons part parts)
  obtain ld lw av where st: "st = (ld, lw, av)" by (cases st)
  with Cons.prems obtain l pv st' where p: "parse_part attr part = Inr (l, pv)"
      and r: "parse_parts attr parts st' = Inr r"
    by (auto simp: ebind_def split: sum.splits)
  from Cons.IH [OF r] p show ?case by auto
qed

lemma py_split_nonempty: "py_split sep s \<noteq> []"
  by (induction s) (auto split: list.splits)

text \<open>What the six passes of the parsing loop leave behind.\<close>

lemma parse_fields_result:
  assumes "parse_fields crontab_notation = Inr s"
  shows "length (values s) = 6"
    and "\<And>i. i < 6 \<Longrightarrow> values s ! i \<noteq> []
            \<and> set (values s ! i) \<subseteq> {fst (fst (snd (cron_attributes ! i)))..snd (fst (snd (cron_attributes ! i)))}"
    and "last_day s = (\<exists>p \<in> set (py_split (CHR '','') (py_lower (split_notation crontab_notation ! 2))).
                          hd p = CHR ''l'')"
    and "last_weekday s = (\<exists>p \<in> set (py_split (CHR '','') (py_lower (split_notation crontab_notation ! 4))).
                          hd p = CHR ''l'')"
    and "\<And>i p. i < 6 \<Longrightarrow> p \<in> set (py_split (CHR '','') (py_lower (split_notation crontab_notation ! i)))
            \<Longrightarrow> \<exists>r. parse_part (cron_attributes ! i) p = Inr r"
proof -
  let ?ps = "split_notation crontab_notation"
  let ?f = "\<lambda>i. py_split (CHR '','') (py_lower (?ps ! i))"
  let ?al3 = "snd (snd (cron_attributes ! 3))" and ?al4 = "snd (snd (cron_attributes ! 4))"
  have e: "enumerate 0 cron_attributes =
      [(0, (Minute, (0, 59), [])), (1, (Hour, (0, 23), [])), (2, (Day, (1, 31), [])),
       (3, (Month, (1, 12), ?al3)), (4, (Isoweekday, (0, 6), ?al4)), (5, (Year, (1970, 2099), []))]"
    by (simp add: cron_attributes_def enumerate_eq_zip upt_rec)
  note a = assms [unfolded parse_fields_def e]
  from a obtain ld0 lw0 av0 where
    p0: "parse_parts (Minute, (0, 59), []) (?f 0) (False, False, []) = Inr (ld0, lw0, av0)"
    and r0: "parse_attrs ?ps [(1, (Hour, (0, 23), [])), (2, (Day, (1, 31), [])),
       (3, (Month, (1, 12), ?al3)), (4, (Isoweekday, (0, 6), ?al4)), (5, (Year, (1970, 2099), []))]
       \<lparr>values = [av0], last_day = ld0, last_weekday = lw0\<rparr> = Inr s"
    by (auto simp: ebind_def split: if_splits sum.splits)
  from r0 obtain ld1 lw1 av1 where
    p1: "parse_parts (Hour, (0, 23), []) (?f 1) (ld0, lw0, []) = Inr (ld1, lw1, av1)"
    and r1: "parse_attrs ?ps [(2, (Day, (1, 31), [])),
       (3, (Month, (1, 12), ?al3)), (4, (Isoweekday, (0, 6), ?al4)), (5, (Year, (1970, 2099), []))]
       \<lparr>values = [av0, av1], last_day = ld1, last_weekday = lw1\<rparr> = Inr s"
    by (auto simp: ebind_def split: if_splits sum.splits)
  from r1 obtain ld2 lw2 av2 where
    p2: "parse_parts (Day, (1, 31), []) (?f 2) (ld1, lw1, []) = Inr (ld2, lw2, av2)"
    and r2: "parse_attrs ?ps [
       (3, (Month, (1, 12), ?al3)), (4, (Isoweekday, (0, 6), ?al4)), (5, (Year, (1970, 2099), []))]
       \<lparr>values = [av0, av1, av2], last_day = ld2, last_weekday = lw2\<rparr> = Inr s"
    by (auto simp: ebind_def split: if_splits sum.splits)
  from r2 obtain ld3 lw3 av3 where
    p3: "parse_parts (Month, (1, 12), ?al3) (?f 3) (ld2, lw2, []) = Inr (ld3, lw3, av3)"
    and r3: "parse_attrs ?ps [(4, (Isoweekday, (0, 6), ?al4)), (5, (Year, (1970, 2099), []))]
       \<lparr>values = [av0, av1, av2, av3], last_day = ld3, last_weekday = lw3\<rparr> = Inr s"
    by (auto simp: ebind_def split: if_splits sum.splits)
  from r3 obtain ld4 lw4 av4 where
    p4: "parse_parts (Isoweekday, (0, 6), ?al4) (?f 4) (ld3, lw3, []) = Inr (ld4, lw4, av4)"
    and r4: "parse_attrs ?ps [(5, (Year, (1970, 2099), []))]
       \<lparr>values = [av0, av1, av2, av3, av4], last_day = ld4, last_weekday = lw4\<rparr> = Inr s"
    by (auto simp: ebind_def split: if_splits sum.splits)
  from r4 obtain ld5 lw5 av5 where
    p5: "parse_parts (Year, (1970, 2099), []) (?f 5) (ld4, lw4, []) = Inr (ld5, lw5, av5)"
    and r5: "s = \<lparr>values = [av0, av1, av2, av3, av4, av5], last_day = ld5, last_weekday = lw5\<rparr>"
    by (auto simp: ebind_def split: if_splits sum.splits)
  note q0 = parse_parts_result [OF p0] and q1 = parse_parts_result [OF p1]
    and q2 = parse_parts_result [OF p2] and q3 = parse_parts_result [OF p3]
    and q4 = parse_parts_result [OF p4] and q5 = parse_parts_result [OF p5]
  show "length (values s) = 6" using r5 by simp
  show "last_day s = (\<exists>p \<in> set (?f 2). hd p = CHR ''l'')"
    using r5 q0 q1 q2 q3 q4 q5 by simp
  show "last_weekday s = (\<exists>p \<in> set (?f 4). hd p = CHR ''l'')"
    using r5 q0 q1 q2 q3 q4 q5 by simp
  have v: "av0 \<noteq> [] \<and> set av0 \<subseteq> {0..59}" "av1 \<noteq> [] \<and> set av1 \<subseteq> {0..23}"
    "av2 \<noteq> [] \<and> set av2 \<subseteq> {1..31}" "av3 \<noteq> [] \<and> set av3 \<subseteq> {1..12}"
    "av4 \<noteq> [] \<and> set av4 \<subseteq> {0..6}" "av5 \<noteq> [] \<and> set av5 \<subseteq> {1970..2099}"
    using q0 q1 q2 q3 q4 q5 py_split_nonempty by auto
  show "values s ! i \<noteq> []
        \<and> set (values s ! i) \<subseteq> {fst (fst (snd (cron_attributes ! i)))..snd (fst (snd (cron_attributes ! i)))}"
    if "i < 6" for i
  proof -
    from that have "i = 0 \<or> i = 1 \<or> i = 2 \<or> i = 3 \<or> i = 4 \<or> i = 5" by arith
    then show ?thesis using v r5 by (auto simp: cron_attributes_def)
  qed
  show "\<exists>r. parse_part (cron_attributes ! i) p = Inr r"
    if "i < 6" and "p \<in> set (?f i)" for i p
  proof -
    from that(1) have "i = 0 \<or> i = 1 \<or> i = 2 \<or> i = 3 \<or> i = 4 \<or> i = 5" by arith
    then show ?thesis
      using that(2) parse_parts_terms [OF p0] parse_parts_terms [OF p1]
        parse_parts_terms [OF p2] parse_parts_terms [OF p3] parse_parts_terms [OF p4]
        parse_parts_terms [OF p5]
      by (auto simp: cron_attributes_def)
  qed
qed

lemma parse_digits_chars:
  "parse_digits acc s = Some n \<Longrightarrow> \<forall>c \<in> set s. digit_value c \<noteq> None \<or> c = CHR ''_''"
proof (induction acc s rule: parse_digits.induct)
  case (1 acc)
  then show ?case by simp
next
  case (2 acc c)
  then show ?case by (auto split: option.splits)
next
  case (3 acc c c' cs)
  show ?case
  proof (cases "digit_value c")
    case None
    with "3.prems" have h: "c = CHR ''_'' \<and> digit_value c' \<noteq> None"
      and p: "parse_digits acc (c' # cs) = Some n"
      by (auto split: if_splits)
    from "3.IH"(1) [OF None h p] h show ?thesis by simp
  next
    case (Some v)
    with "3.prems" have "parse_digits (acc * 10 + v) (c' # cs) = Some n" by simp
    from "3.IH"(2) [OF Some this] Some show ?thesis by simp
  qed
qed

lemma in_set_dropWhile: "x \<in> set xs \<Longrightarrow> \<not> P x \<Longrightarrow> x \<in> set (dropWhile P xs)"
  by (induction xs) auto

lemma in_set_py_strip: "x \<in> set s \<Longrightarrow> \<not> is_space x \<Longrightarrow> x \<in> set (py_strip s)"
  by (simp add: py_strip_def in_set_dropWhile)

lemma py_int_chars:
  assumes "py_int s = Inr n" and "x \<in> set s"
  shows "is_space x \<or> digit_value x \<noteq> None \<or> x = CHR ''_'' \<or> x = CHR ''+'' \<or> x = CHR ''-''"
proof (rule ccontr)
  assume a: "\<not> ?thesis"
  then have x: "x \<in> set (py_strip s)" using assms(2) in_set_py_strip by blast
  have u: "parse_unsigned t = Some m \<Longrightarrow> \<forall>c \<in> set t. digit_value c \<noteq> None \<or> c = CHR ''_''"
    for t m
    using parse_digits_chars [of 0 t m]
    by (auto simp: parse_unsigned_def split: list.splits if_splits)
  from assms(1) obtain c cs where t: "py_strip s = c # cs"
    by (cases "py_strip s") (auto simp: py_int_def)
  from assms(1) t have "(c = CHR ''+'' \<and> (\<exists>m. parse_unsigned cs = Some m))
      \<or> (c = CHR ''-'' \<and> (\<exists>m. parse_unsigned cs = Some m))
      \<or> (\<exists>m. parse_unsigned (c # cs) = Some m)"
    by (auto simp: py_int_def Let_def split: if_splits option.splits)
  with u have "\<forall>y \<in> set (c # cs). digit_value y \<noteq> None \<or> y = CHR ''_''
                  \<or> y = CHR ''+'' \<or> y = CHR ''-''"
    by fastforce
  with x t a show False by auto
qed

lemma py_int_no_slash: "py_int s = Inr n \<Longrightarrow> CHR ''/'' \<notin> set s"
  using py_int_chars [of s n "CHR ''/''"] by (auto simp: is_space_def digit_value_def)


lemma py_split_no_sep: "sep \<notin> set s \<Longrightarrow> py_split sep s = [s]"
  by (induction s) auto

lemma range_term_parsed:
  assumes "CHR ''-'' \<in> set part" and "parse_part (t, rng, al) part = Inr r"
  shows "\<exists>a b. py_split (CHR ''-'') part = [a, b] \<and> a \<noteq> []
           \<and> (\<exists>n. resolve al (if hd a = CHR ''l'' then tl a else a) = Inr n)
           \<and> (\<exists>n. resolve al (hd (py_split (CHR ''/'') b)) = Inr n)"
proof -
  from assms(2) obtain r1 where r: "range_part rng al part = Inr r1"
    by (auto simp: parse_part_def ebind_def split: sum.splits)
  from r assms(1) obtain a b where s: "py_split (CHR ''-'') part = [a, b]"
    by (auto simp: range_part_def split: list.splits)
  from r assms(1) s obtain b' where
    b': "(if CHR ''/'' \<in> set b
          then (case py_split (CHR ''/'') b of [b', u] \<Rightarrow> Inr b' | _ \<Rightarrow> Inl ValueError)
          else Inr b) = Inr b'"
    and k: "(case a of [] \<Rightarrow> Inl IndexError
             | c # a' \<Rightarrow>
                 (let is_last = (c = CHR ''l''); a = (if is_last then a' else a)
                  in ebind (resolve al a)
                       (\<lambda>ai. ebind (resolve al b')
                         (\<lambda>bi. Inr (is_last,
                            filter (\<lambda>x. x \<ge> min ai bi \<and> x \<le> max ai bi)
                              [fst rng..snd rng]))))) = Inr r1"
    by (auto simp: range_part_def ebind_def split: sum.splits)
  have hb: "b' = hd (py_split (CHR ''/'') b)"
    using b' py_split_no_sep [of "CHR ''/''" b] by (auto split: if_splits list.splits)
  from k obtain c a' where a: "a = c # a'" by (cases a) auto
  from k a have "(\<exists>n. resolve al (if c = CHR ''l'' then a' else a) = Inr n)
      \<and> (\<exists>n. resolve al b' = Inr n)"
    by (auto simp: Let_def ebind_def split: sum.splits if_splits)
  with s a hb show ?thesis by auto
qed

lemma step_term_parsed:
  assumes "CHR ''/'' \<in> set part" and "parse_part (t, rng, al) part = Inr r"
  shows "\<exists>a b n. py_split (CHR ''/'') part = [a, b] \<and> py_int b = Inr n \<and> n \<noteq> 0"
proof -
  from assms(2) obtain l1 pv1 pv2 l pv where r: "range_part rng al part = Inr (l1, pv1)"
      and s: "step_part al part pv1 = Inr pv2"
      and e: "exact_part al part l1 pv2 = Inr (l, pv)" and n: "pv \<noteq> []"
    by (auto simp: parse_part_def ebind_def split: sum.splits if_splits)
  from exact_part_result(1) [OF e] n have pv2: "pv2 \<noteq> []" by auto
  from s assms(1) obtain a b where sp: "py_split (CHR ''/'') part = [a, b]"
    by (auto simp: step_part_def split: list.splits)
  from s assms(1) sp obtain bi where bi: "py_int b = Inr bi"
    by (cases "py_int b") (auto simp: step_part_def ebind_def Let_def split: sum.splits)
  have "bi \<noteq> 0"
  proof
    assume z: "bi = 0"
    have "filter_congruent pv1 ai bi = Inr pv2 \<Longrightarrow> False" for ai
      using z pv2 by (auto simp: filter_congruent_def split: if_splits)
    moreover have "filter_multiple pv1 bi = Inr pv2 \<Longrightarrow> False"
      using z pv2 by (auto simp: filter_multiple_def split: if_splits)
    ultimately show False
      using s assms(1) sp bi
      by (auto simp: step_part_def ebind_def Let_def split: sum.splits if_splits list.splits)
  qed
  with sp bi show ?thesis by blast
qed

lemma bare_token:
  assumes "CHR ''-'' \<notin> set part" and "CHR ''/'' \<notin> set part" and "part \<noteq> []"
    and "resolve al (if hd part = CHR ''l'' then tl part else part) = Inl e"
    and "fst rng \<le> snd rng"
  shows "parse_part (t, rng, al) part = Inr (hd part = CHR ''l'', [fst rng..snd rng])"
proof -
  from assms(3) obtain c rest where p: "part = c # rest" by (cases part) auto
  have r: "range_part rng al part = Inr (False, [fst rng..snd rng])"
    using assms(1) by (simp add: range_part_def)
  have s: "step_part al part [fst rng..snd rng] = Inr [fst rng..snd rng]"
    using assms(2) by (simp add: step_part_def)
  have e: "exact_part al part False [fst rng..snd rng]
           = Inr (hd part = CHR ''l'', [fst rng..snd rng])"
    using assms(4) p by (auto simp: exact_part_def Let_def)
  have "[fst rng..snd rng] \<noteq> []" using assms(5) by simp
  with r s e show ?thesis by (simp add: parse_part_def ebind_def)
qed

lemma py_strip_head:
  assumes "\<not> is_space c"
  shows "\<exists>ys. py_strip (c # xs) = c # ys"
proof -
  have "\<exists>zs. dropWhile is_space (rev xs @ [c]) = zs @ [c]"
    using assms by (cases "\<forall>x \<in> set (rev xs). is_space x") (auto simp: dropWhile_append)
  then obtain zs where "dropWhile is_space (rev xs @ [c]) = zs @ [c]" by blast
  with assms show ?thesis by (simp add: py_strip_def)
qed

lemma py_int_bad_head:
  assumes "\<not> is_space c" and "c \<noteq> CHR ''+''" and "c \<noteq> CHR ''-''" and "digit_value c = None"
  shows "py_int (c # xs) = Inl ValueError"
proof -
  from py_strip_head [OF assms(1)] obtain ys where "py_strip (c # xs) = c # ys" by blast
  with assms show ?thesis by (simp add: py_int_def parse_unsigned_def)
qed

lemma alias_keys:
  assumes "(t, rng, al) \<in> set cron_attributes" and "c = CHR ''*'' \<or> c = CHR ''?''"
  shows "map_of al (c # xs) = None" and "fst rng \<le> snd rng"
  using assms by (auto simp: cron_attributes_def)

lemma star_step:
  assumes "(t, rng, al) \<in> set cron_attributes" and "c = CHR ''*'' \<or> c = CHR ''?''"
    and "py_int st = Inr n" and "CHR ''-'' \<notin> set st"
  shows "parse_part (t, rng, al) (c # CHR ''/'' # st)
         = (if n = 0 then Inl ZeroDivisionError
            else if filter (\<lambda>x. x mod n = 0) [fst rng..snd rng] = [] then Inl (InvalidValues t)
            else Inr (False, filter (\<lambda>x. x mod n = 0) [fst rng..snd rng]))"
proof -
  let ?part = "c # CHR ''/'' # st"
  have c: "\<not> is_space c" "c \<noteq> CHR ''+''" "c \<noteq> CHR ''-''" "digit_value c = None"
      "c \<noteq> CHR ''/''" "c \<noteq> CHR ''l''"
    using assms(2) by (auto simp: is_space_def digit_value_def)
  have res: "resolve al (c # xs) = Inl ValueError" for xs
    using alias_keys(1) [OF assms(1,2)] py_int_bad_head [OF c(1-4)] by (simp add: resolve_def)
  have r: "range_part rng al ?part = Inr (False, [fst rng..snd rng])"
    using c(3) assms(4) by (simp add: range_part_def)
  have sp: "py_split (CHR ''/'') ?part = [[c], st]"
    using c(5) py_split_no_sep [OF py_int_no_slash [OF assms(3)]] by simp
  have ne: "[fst rng..snd rng] \<noteq> []" using alias_keys(2) [OF assms(1,2)] by simp
  have s: "step_part al ?part [fst rng..snd rng] = filter_multiple [fst rng..snd rng] n"
    using sp res [of "[]"] assms(2,3) by (auto simp: step_part_def ebind_def)
  have e: "exact_part al ?part False pv = Inr (False, pv)" for pv
    using res [of "CHR ''/'' # st"] c(6) by (simp add: exact_part_def)
  show ?thesis
    using r s e ne by (simp add: parse_part_def ebind_def filter_multiple_def)
qed

lemma every_nth_multiple:
  assumes "fst rng mod n = 0"
  shows "filter (\<lambda>x. x mod n = 0) [fst rng..snd rng] = every_nth_from_min rng n"
proof -
  have "(v - fst rng) mod n = v mod n" for v
    using assms by (metis diff_zero mod_diff_right_eq)
  then show ?thesis by (simp add: every_nth_from_min_def)
qed

lemma no_candidate_after_years:
  assumes "\<forall>v \<in> set (vals ! 5). v < year d"
  shows "attempt vals ld lw d = Inr Exhausted \<or> attempt vals ld lw d = Inr Abandoned"
proof (cases "carry_fields vals (enumerate 0 cron_attributes) d")
  case (Candidate c)
  from carry_candidate [OF this] assms show ?thesis by force
next
  case Abandoned
  then show ?thesis by (simp add: attempt_def)
next
  case Exhausted
  then show ?thesis by (simp add: attempt_def)
qed

lemma next_day_year:
  assumes "next_day d = Inr d'"
  shows "year d \<le> year d'" and "year d' \<le> year d + 1"
  using assms by (auto simp: next_day_def mk_datetime_def split: sum.splits if_splits)

lemma next_day_defined:
  assumes "0 \<le> year d" and "year d \<le> 9998"
  shows "\<exists>d'. next_day d = Inr d'"
  using assms by (auto simp: next_day_def mk_datetime_def days_in_month_def split: sum.splits)

lemma calculate_loop_past_years:
  assumes "\<forall>v \<in> set (vals ! 5). v < year d" and "0 \<le> year d" and "year d \<le> 9998"
  shows "calculate_loop vals ld lw d = Inr None"
  using assms
proof (induction vals ld lw d rule: calculate_loop.induct)
  case (1 vals ld lw d)
  from no_candidate_after_years [OF "1.prems"(1)]
  show ?case
  proof
    assume "attempt vals ld lw d = Inr Exhausted"
    then show ?thesis by (simp add: calculate_loop.simps [of vals ld lw d])
  next
    assume a: "attempt vals ld lw d = Inr Abandoned"
    from next_day_defined [OF "1.prems"(2,3)] obtain d' where n: "next_day d = Inr d'" by blast
    show ?thesis
    proof (cases "year d' \<ge> 2100")
      case True
      with a n show ?thesis by (simp add: calculate_loop.simps [of vals ld lw d])
    next
      case False
      from next_day_year [OF n] "1.prems" False
      have "\<forall>v \<in> set (vals ! 5). v < year d'" "0 \<le> year d'" "year d' \<le> 9998" by auto
      from "1.IH" [OF a refl n False this] a n False show ?thesis
        by (simp add: calculate_loop.simps [of vals ld lw d])
    qed
  qed
qed

lemma calculate_loop_past_years_9999:
  assumes "\<forall>v \<in> set (vals ! 5). v < 9999"
  shows "calculate_loop vals ld lw
           \<lparr>year = 9999, month = 1, day = 1, hour = 0, minute = 0, second = 0, microsecond = 0\<rparr>
         = Inr None"
proof -
  let ?d = "\<lparr>year = 9999, month = 1, day = 1, hour = 0, minute = 0, second = 0, microsecond = 0\<rparr>"
  have n: "next_day ?d = Inr (?d\<lparr>day := 2\<rparr>)"
    by (simp add: next_day_def mk_datetime_def days_in_month_def)
  from no_candidate_after_years [of vals ?d ld lw] assms
  have "attempt vals ld lw ?d = Inr Exhausted \<or> attempt vals ld lw ?d = Inr Abandoned" by simp
  then show ?thesis using n by (auto simp: calculate_loop.simps [of vals ld lw ?d])
qed

lemma seeds_valid:
  assumes "valid_datetime now_date" and "year now_date \<le> 9998"
  shows "\<exists>ds. seeds now_date = Inr ds
           \<and> (\<forall>d. Some d \<in> set ds \<longrightarrow>
                 (year d = year now_date
                  \<or> d = \<lparr>year = year now_date + 1, month = 1, day = 1, hour = 0, minute = 0,
                          second = 0, microsecond = 0\<rparr>))"
  using assms
  by (auto simp: seeds_def optional_def ebind_def mk_datetime_def monthrange_days_def
        valid_datetime_def days_in_month_def)

lemma seeds_year_9999:
  assumes "valid_datetime now_date" and "year now_date = 9999"
  shows "seeds now_date = Inl ValueError"
  using assms
  by (auto simp: seeds_def optional_def ebind_def mk_datetime_def monthrange_days_def
        valid_datetime_def days_in_month_def)

lemma calculate_dates_all_None:
  assumes "\<And>d. Some d \<in> set ds \<Longrightarrow> calculate_date s (Some d) = Inr None"
  shows "\<exists>n. calculate_dates s (filter (\<lambda>d. d \<noteq> None) ds) = Inr (replicate n None)"
  using assms
proof (induction ds)
  case Nil
  show ?case by (rule exI [of _ 0]) simp
next
  case (Cons a ds)
  then obtain n where n: "calculate_dates s (filter (\<lambda>d. d \<noteq> None) ds) = Inr (replicate n None)"
    by auto
  show ?case
  proof (cases a)
    case None
    with n show ?thesis by auto
  next
    case (Some d)
    with Cons.prems have "calculate_date s (Some d) = Inr None" by simp
    with n Some show ?thesis by (intro exI [of _ "Suc n"]) (simp add: ebind_def)
  qed
qed

lemma past_years_general:
  assumes "parse_schedule crontab_notation = Inr s" and "\<forall>v \<in> set (values s ! 5). v < year now_date"
    and "valid_datetime now_date" and "year now_date \<le> 9998"
  shows "get_next_datetime crontab_notation now_date = Inr None"
proof -
  from seeds_valid [OF assms(3,4)] obtain ds where ds: "seeds now_date = Inr ds"
    and y: "\<And>d. Some d \<in> set ds \<Longrightarrow> year d = year now_date
             \<or> d = \<lparr>year = year now_date + 1, month = 1, day = 1, hour = 0, minute = 0,
                          second = 0, microsecond = 0\<rparr>"
    by blast
  have "calculate_date s (Some d) = Inr None" if "Some d \<in> set ds" for d
  proof -
    from y [OF that] show ?thesis
    proof
      assume "year d = year now_date"
      with assms(2,3,4) show ?thesis
        using calculate_loop_past_years [of "values s" d "last_day s" "last_weekday s"]
        by (simp add: calculate_date_def valid_datetime_def)
    next
      assume d: "d = \<lparr>year = year now_date + 1, month = 1, day = 1, hour = 0, minute = 0,
                          second = 0, microsecond = 0\<rparr>"
      show ?thesis
      proof (cases "year now_date = 9998")
        case True
        with assms(2) have "\<forall>v \<in> set (values s ! 5). v < 9999" by auto
        from calculate_loop_past_years_9999 [OF this] d True show ?thesis
          by (simp add: calculate_date_def)
      next
        case False
        with d assms(2,3,4)
        have "\<forall>v \<in> set (values s ! 5). v < year d" "0 \<le> year d" "year d \<le> 9998"
          by (auto simp: valid_datetime_def)
        from calculate_loop_past_years [OF this] show ?thesis
          by (simp add: calculate_date_def)
      qed
    qed
  qed
  from calculate_dates_all_None [of ds s, OF this] obtain n
    where "calculate_dates s (filter (\<lambda>d. d \<noteq> None) ds) = Inr (replicate n None)" by blast
  with assms(1) ds show ?thesis by (simp add: get_next_datetime_def ebind_def)
qed

lemma parse_schedule_fields:
  assumes "parse_schedule crontab_notation = Inr s"
  shows "parse_fields crontab_notation = Inr s"
  using assms
  by (auto simp: parse_schedule_def check_days_def ebind_def Let_def
           split: sum.splits list.splits if_splits)

lemma later_same_weekday_False:
  assumes "later_same_weekday c days = Inr False"
  shows "\<not> list_ex (\<lambda>i. isoweekday (c\<lparr>day := i\<rparr>) = isoweekday c) days"
  using assms
proof (induction days)
  case Nil
  then show ?case by simp
next
  case (Cons i days)
  then obtain di where m: "mk_datetime (year c) (month c) i 0 0 = Inr di"
    and w: "isoweekday di \<noteq> isoweekday c" and r: "later_same_weekday c days = Inr False"
    by (auto simp: ebind_def split: sum.splits if_splits)
  from m have "isoweekday di = isoweekday (c\<lparr>day := i\<rparr>)"
    by (auto simp: mk_datetime_def isoweekday_def toordinal_def split: if_splits)
  with w Cons.IH [OF r] show ?case by simp
qed

text \<open>Whatever the call returns satisfies the schedule.\<close>

lemma result_satisfies:
  assumes "parse_schedule crontab_notation = Inr s"
    and "get_next_datetime crontab_notation now_date = Inr (Some t)"
  shows "satisfies s t"
proof -
  from get_next_datetime_Some [OF assms(2)] assms(1) obtain d
    where "calculate_loop (values s) (last_day s) (last_weekday s) d = Inr (Some t)" by auto
  from calculate_loop_Some [OF this] obtain d'
    where a: "attempt (values s) (last_day s) (last_weekday s) d' = Inr (Candidate t)" by blast
  note c = carry_candidate [OF attempt_candidate(1) [OF a]]
  have "last_weekday s \<Longrightarrow>
      \<not> list_ex (\<lambda>i. isoweekday (t\<lparr>day := i\<rparr>) = isoweekday t)
           [day t + 1..days_in_month (year t) (month t)]"
    using attempt_candidate(4) [OF a] later_same_weekday_False by blast
  with c attempt_candidate(2,3) [OF a] show ?thesis by (simp add: satisfies_def)
qed

lemma month_lengths_ok:
  "(\<forall>p \<in> set ps. 1 \<le> snd p \<and> snd p \<le> 12)
   \<Longrightarrow> month_lengths ps = Inr (map (\<lambda>(y, m). days_in_month y m) ps)"
  by (induction ps) (auto simp: ebind_def monthrange_days_def)

lemma check_days_infeasible:
  assumes "parse_fields crontab_notation = Inr s" and "28 \<le> Min (set (values s ! 2))"
    and "\<forall>y \<in> set (values s ! 5). \<forall>m \<in> set (values s ! 3).
           days_in_month y m < Min (set (values s ! 2))"
  shows "check_days s = Inl DaysOutOfScope"
proof -
  note r = parse_fields_result(2) [OF assms(1)]
  from r [of 2] obtain v vs where v: "values s ! 2 = v # vs"
    by (cases "values s ! 2") auto
  then have m: "fold min vs v = Min (set (values s ! 2))" by (simp only: fold_min_Min)
  let ?ps = "concat (map (\<lambda>y. map (\<lambda>m. (y, m)) (values s ! 3)) (values s ! 5))"
  from r [of 3] have "\<forall>p \<in> set ?ps. 1 \<le> snd p \<and> snd p \<le> 12"
    by (auto simp: cron_attributes_def)
  from month_lengths_ok [OF this]
  have l: "month_lengths ?ps = Inr (map (\<lambda>(y, m). days_in_month y m) ?ps)" .
  have "\<not> list_ex (\<lambda>n. n \<ge> Min (set (values s ! 2))) (map (\<lambda>(y, m). days_in_month y m) ?ps)"
    using assms(3) by (force simp: list_ex_iff)
  with v m l assms(2) show ?thesis
    by (simp add: check_days_def ebind_def Let_def)
qed

lemma parse_error_surfaces:
  "parse_schedule crontab_notation = Inl e \<Longrightarrow> get_next_datetime crontab_notation now_date = Inl e"
  by (simp add: get_next_datetime_def ebind_def)

lemma py_split_ws_words:
  "\<forall>w \<in> set (py_split_ws s). w \<noteq> [] \<and> (\<forall>c \<in> set w. \<not> is_space c)"
proof (induction s rule: py_split_ws.induct)
  case 1
  show ?case by simp
next
  case (2 c cs)
  show ?case
  proof (cases "is_space c")
    case True
    then have "py_split_ws (c # cs) = py_split_ws cs" by simp
    with "2.IH"(1) [OF True] show ?thesis by (simp only:)
  next
    case False
    let ?w = "c # takeWhile (\<lambda>x. \<not> is_space x) cs"
    let ?rest = "py_split_ws (dropWhile (\<lambda>x. \<not> is_space x) cs)"
    have e: "py_split_ws (c # cs) = ?w # ?rest" using False by simp
    have h: "?w \<noteq> [] \<and> (\<forall>x \<in> set ?w. \<not> is_space x)"
      using False by (auto dest: set_takeWhileD)
    show ?thesis
      unfolding e
    proof (intro ballI)
      fix w
      assume "w \<in> set (?w # ?rest)"
      then consider "w = ?w" | "w \<in> set ?rest" by auto
      then show "w \<noteq> [] \<and> (\<forall>c \<in> set w. \<not> is_space c)"
        using h "2.IH"(2) [OF False] by cases blast+
    qed
  qed
qed

lemma py_split_ws_word:
  assumes "w \<noteq> []" and "\<forall>c \<in> set w. \<not> is_space c" and "rest = [] \<or> is_space (hd rest)"
  shows "py_split_ws (w @ rest) = w # py_split_ws rest"
proof -
  from assms(1) obtain c w' where w: "w = c # w'" by (cases w) auto
  with assms(2) have c: "\<not> is_space c" and w': "\<forall>x \<in> set w'. \<not> is_space x" by auto
  have r: "takeWhile (\<lambda>x. \<not> is_space x) rest = []" "dropWhile (\<lambda>x. \<not> is_space x) rest = rest"
    using assms(3) by (cases rest; auto)+
  have "takeWhile (\<lambda>x. \<not> is_space x) (w' @ rest) = w'"
    using w' r by (simp add: takeWhile_append2)
  moreover have "dropWhile (\<lambda>x. \<not> is_space x) (w' @ rest) = rest"
    using w' r by (simp add: dropWhile_append2)
  ultimately show ?thesis using c w by simp
qed

lemma py_split_ws_join:
  "\<forall>w \<in> set ws. w \<noteq> [] \<and> (\<forall>c \<in> set w. \<not> is_space c) \<Longrightarrow> py_split_ws (join_fields ws) = ws"
proof (induction ws rule: join_fields.induct)
  case 1
  then show ?case by simp
next
  case (2 w)
  then show ?case using py_split_ws_word [of w "[]"] by simp
next
  case (3 w v ws)
  have s: "is_space (CHR '' '')" by (simp add: is_space_def)
  from 3 have "py_split_ws (w @ CHR '' '' # join_fields (v # ws))
      = w # py_split_ws (CHR '' '' # join_fields (v # ws))"
    by (intro py_split_ws_word) (auto simp: s)
  with 3 s show ?case by simp
qed

lemma py_strip_word: "\<forall>c \<in> set w. \<not> is_space c \<Longrightarrow> py_strip w = w"
proof -
  have d: "dropWhile is_space xs = xs" if "\<forall>c \<in> set xs. \<not> is_space c" for xs
    using that by (cases xs) auto
  assume a: "\<forall>c \<in> set w. \<not> is_space c"
  then show ?thesis by (simp add: py_strip_def d)
qed

lemma filter_words:
  "\<forall>w \<in> set ws. w \<noteq> [] \<and> (\<forall>c \<in> set w. \<not> is_space c)
   \<Longrightarrow> filter (\<lambda>c. py_strip c \<noteq> []) ws = ws"
  by (induction ws) (auto simp: py_strip_word)

lemma alias_one_field:
  assumes "map_of crontab_aliases s = Some e"
  shows "length (py_split_ws s) = 1"
proof -
  from map_of_SomeD [OF assms] have "s \<in> fst ` set crontab_aliases" by force
  then show ?thesis by (auto simp: crontab_aliases_def is_space_def)
qed

lemma parse_attrs_cong:
  "\<forall>(i, a) \<in> set ias. i < length ps \<and> i < length ps' \<and> ps ! i = ps' ! i
   \<Longrightarrow> parse_attrs ps ias st = parse_attrs ps' ias st"
proof (induction ias arbitrary: st)
  case Nil
  then show ?case by simp
next
  case (Cons ia ias)
  obtain i a where ia: "ia = (i, a)" by (cases ia)
  with Cons.prems have h: "i < length ps" "i < length ps'" "ps ! i = ps' ! i"
    and r: "\<forall>(i, a) \<in> set ias. i < length ps \<and> i < length ps' \<and> ps ! i = ps' ! i"
    by auto
  from Cons.IH [OF r] h ia show ?case by (simp add: ebind_def split: sum.splits)
qed

lemma extra_fields_general:
  assumes "6 < length (py_split_ws s)"
  shows "parse_fields s = parse_fields (join_fields (take 6 (py_split_ws s)))"
proof -
  let ?ws = "py_split_ws s" and ?s' = "join_fields (take 6 (py_split_ws s))"
  note w = py_split_ws_words [of s]
  have n: "map_of crontab_aliases s = None"
    using alias_one_field [of s] assms by (cases "map_of crontab_aliases s") auto
  have w6: "\<forall>w \<in> set (take 6 ?ws). w \<noteq> [] \<and> (\<forall>c \<in> set w. \<not> is_space c)"
    using w by (auto dest: in_set_takeD)
  have j: "py_split_ws ?s' = take 6 ?ws" using py_split_ws_join [OF w6] .
  then have "length (py_split_ws ?s') = 6" using assms by simp
  then have n': "map_of crontab_aliases ?s' = None"
    using alias_one_field [of ?s'] by (cases "map_of crontab_aliases ?s'") auto
  have l: "length cron_attributes = 6" by (simp add: cron_attributes_def)
  have 1: "split_notation s = ?ws"
    using n assms filter_words [OF w] by (simp add: split_notation_def l)
  have 2: "split_notation ?s' = take 6 ?ws"
    using n' j assms filter_words [OF w6] by (simp add: split_notation_def l)
  have "\<forall>(i, a) \<in> set (enumerate 0 cron_attributes).
          i < length ?ws \<and> i < length (take 6 ?ws) \<and> ?ws ! i = take 6 ?ws ! i"
    using assms by (auto simp: in_set_enumerate_eq l)
  from parse_attrs_cong [OF this] show ?thesis by (simp add: parse_fields_def 1 2)
qed

section \<open>The earliest occurrence\<close>

text \<open>
  C1 (the result is the earliest instant after the reference that satisfies the schedule).
  The seed for the next month is left out when the reference is in November
  (\<^verbatim>\<open>now_date.month < 12 - 1\<close>), and the search from the other seeds of the same year
  keeps the day it picked before it moved the month. For the schedule
  \<^verbatim>\<open>0 0 5,20 12 *\<close> and the reference 2021-11-10T00:00:00 the call returns
  2021-12-20T00:00, although 2021-12-05T00:00 satisfies the schedule and lies between the
  reference and the result.
\<close>

theorem later_occurrence_returned:
  "get_next_datetime ''0 0 5,20 12 *''
     \<lparr>year = 2021, month = 11, day = 10, hour = 0, minute = 0, second = 0, microsecond = 0\<rparr>
   = Inr (Some \<lparr>year = 2021, month = 12, day = 20, hour = 0, minute = 0, second = 0,
                microsecond = 0\<rparr>)
   \<and> (case parse_schedule ''0 0 5,20 12 *'' of
        Inr s \<Rightarrow> satisfies s \<lparr>year = 2021, month = 12, day = 5, hour = 0, minute = 0,
                              second = 0, microsecond = 0\<rparr>
      | Inl e \<Rightarrow> False)
   \<and> datetime_less
        \<lparr>year = 2021, month = 11, day = 10, hour = 0, minute = 0, second = 0, microsecond = 0\<rparr>
        \<lparr>year = 2021, month = 12, day = 5, hour = 0, minute = 0, second = 0, microsecond = 0\<rparr>
   \<and> datetime_less
        \<lparr>year = 2021, month = 12, day = 5, hour = 0, minute = 0, second = 0, microsecond = 0\<rparr>
        \<lparr>year = 2021, month = 12, day = 20, hour = 0, minute = 0, second = 0, microsecond = 0\<rparr>"
  by code_simp

section \<open>Results that precede their reference\<close>

text \<open>
  C2 (the result is never before the reference). The reference is its own seed whenever
  its seconds are 0, whatever its microseconds are, and the first field of the search
  rebuilds it without seconds and microseconds. For the schedule \<^verbatim>\<open>* * * * *\<close> and the
  reference 2020-01-01T12:00:00.500000 the call returns 2020-01-01T12:00:00, half a second
  before the reference.
\<close>

theorem result_before_reference:
  "get_next_datetime ''* * * * *''
     \<lparr>year = 2020, month = 1, day = 1, hour = 12, minute = 0, second = 0,
      microsecond = 500000\<rparr>
   = Inr (Some \<lparr>year = 2020, month = 1, day = 1, hour = 12, minute = 0, second = 0,
                microsecond = 0\<rparr>)
   \<and> datetime_less
       \<lparr>year = 2020, month = 1, day = 1, hour = 12, minute = 0, second = 0, microsecond = 0\<rparr>
       \<lparr>year = 2020, month = 1, day = 1, hour = 12, minute = 0, second = 0,
        microsecond = 500000\<rparr>"
  by code_simp

section \<open>Termination of the retry loop\<close>

text \<open>
  C3. Each retry moves the date on: the year, month and day of the advanced date are
  later than before and its time is midnight, and for a valid date the advanced date is
  the next calendar day. When a pass is abandoned and the advanced date is in the year
  2100 or later, the loop returns \<^verbatim>\<open>None\<close>. The loop ends on every input, after at most
  \<open>loop_measure d + 1\<close> passes, with the value of \<open>calculate_loop\<close>; the remaining
  functions of \<open>get_next_datetime\<close> are structural recursions.
\<close>

theorem retry_loop_terminates:
  "(next_day d = Inr d' \<longrightarrow>
      tuple_less [year d, month d, day d] [year d', month d', day d']
      \<and> hour d' = 0 \<and> minute d' = 0 \<and> second d' = 0 \<and> microsecond d' = 0)
   \<and> (valid_datetime d \<and> next_day d = Inr d' \<longrightarrow> toordinal d' = toordinal d + 1)
   \<and> (attempt vals ld lw d = Inr Abandoned \<and> next_day d = Inr d' \<and> 2100 \<le> year d'
        \<longrightarrow> calculate_loop vals ld lw d = Inr None)
   \<and> loop_fuel (Suc (loop_measure d)) vals ld lw d = Some (calculate_loop vals ld lw d)"
proof -
  have 1: "tuple_less [year d, month d, day d] [year d', month d', day d']
      \<and> hour d' = 0 \<and> minute d' = 0 \<and> second d' = 0 \<and> microsecond d' = 0"
    if "next_day d = Inr d'"
    using next_day_later [OF that] by simp
  have 2: "toordinal d' = toordinal d + 1" if "valid_datetime d \<and> next_day d = Inr d'"
    using that next_day_ordinal by blast
  have 3: "calculate_loop vals ld lw d = Inr None"
    if "attempt vals ld lw d = Inr Abandoned \<and> next_day d = Inr d' \<and> 2100 \<le> year d'"
    using that by (simp add: calculate_loop.simps [of vals ld lw d])
  have 4: "loop_fuel (Suc (loop_measure d)) vals ld lw d = Some (calculate_loop vals ld lw d)"
    by (rule loop_fuel_enough) simp
  from 1 2 3 4 show ?thesis by blast
qed

theorem retry_loop_terminates_witness:
  "next_day \<lparr>year = 2099, month = 12, day = 31, hour = 0, minute = 0, second = 0,
             microsecond = 0\<rparr>
     = Inr \<lparr>year = 2100, month = 1, day = 1, hour = 0, minute = 0, second = 0,
            microsecond = 0\<rparr>
   \<and> valid_datetime \<lparr>year = 2099, month = 12, day = 31, hour = 0, minute = 0, second = 0,
                      microsecond = 0\<rparr>
   \<and> attempt (values leap_day_schedule) False False
        \<lparr>year = 2099, month = 12, day = 31, hour = 0, minute = 0, second = 0,
         microsecond = 0\<rparr> = Inr Abandoned
   \<and> toordinal \<lparr>year = 2100, month = 1, day = 1, hour = 0, minute = 0, second = 0,
                 microsecond = 0\<rparr>
     = toordinal \<lparr>year = 2099, month = 12, day = 31, hour = 0, minute = 0, second = 0,
                   microsecond = 0\<rparr> + 1
   \<and> calculate_loop (values leap_day_schedule) False False
        \<lparr>year = 2099, month = 12, day = 31, hour = 0, minute = 0, second = 0,
         microsecond = 0\<rparr> = Inr None
   \<and> loop_fuel (Suc (loop_measure \<lparr>year = 2099, month = 12, day = 31, hour = 0, minute = 0,
                                   second = 0, microsecond = 0\<rparr>))
        (values leap_day_schedule) False False
        \<lparr>year = 2099, month = 12, day = 31, hour = 0, minute = 0, second = 0,
         microsecond = 0\<rparr> = Some (Inr None)"
proof -
  let ?d = "\<lparr>year = 2099, month = 12, day = 31, hour = 0, minute = 0, second = 0,
             microsecond = 0\<rparr>"
  let ?d' = "\<lparr>year = 2100, month = 1, day = 1, hour = 0, minute = 0, second = 0,
             microsecond = 0\<rparr>"
  have n: "next_day ?d = Inr ?d'" by code_simp
  have v: "valid_datetime ?d" by code_simp
  have a: "attempt (values leap_day_schedule) False False ?d = Inr Abandoned" by code_simp
  have y: "2100 \<le> year ?d'" by simp
  note t = retry_loop_terminates [of ?d ?d' "values leap_day_schedule" False False]
  from t n v have o: "toordinal ?d' = toordinal ?d + 1" by blast
  from t n a y have c: "calculate_loop (values leap_day_schedule) False False ?d = Inr None"
    by blast
  from t have "loop_fuel (Suc (loop_measure ?d)) (values leap_day_schedule) False False ?d
      = Some (calculate_loop (values leap_day_schedule) False False ?d)"
    by blast
  then have f: "loop_fuel (Suc (loop_measure ?d)) (values leap_day_schedule) False False ?d
      = Some (Inr None)"
    by (simp only: c)
  show ?thesis by (intro conjI) (rule n v a o c f)+
qed

section \<open>Days that no month has\<close>

text \<open>
  C4. When the least admissible day is at least 28 and no admissible year and month has
  a month that long, the feasibility check raises, so that the call raises for every
  reference without looking at it. The schedule \<^verbatim>\<open>0 0 31 feb *\<close> is such a schedule.
\<close>

theorem infeasible_days:
  "(parse_fields crontab_notation = Inr s \<and> 28 \<le> Min (set (values s ! 2))
     \<and> (\<forall>y \<in> set (values s ! 5). \<forall>m \<in> set (values s ! 3).
           days_in_month y m < Min (set (values s ! 2)))
     \<longrightarrow> parse_schedule crontab_notation = Inl DaysOutOfScope
         \<and> get_next_datetime crontab_notation now_date = Inl DaysOutOfScope)
   \<and> parse_schedule ''0 0 31 feb *'' = Inl DaysOutOfScope
   \<and> get_next_datetime ''0 0 31 feb *'' now_date = Inl DaysOutOfScope"
proof -
  have 1: "parse_schedule crontab_notation = Inl DaysOutOfScope
         \<and> get_next_datetime crontab_notation now_date = Inl DaysOutOfScope"
    if "parse_fields crontab_notation = Inr s \<and> 28 \<le> Min (set (values s ! 2))
     \<and> (\<forall>y \<in> set (values s ! 5). \<forall>m \<in> set (values s ! 3).
           days_in_month y m < Min (set (values s ! 2)))"
  proof -
    from that check_days_infeasible [of crontab_notation s]
    have "parse_schedule crontab_notation = Inl DaysOutOfScope"
      by (simp add: parse_schedule_def ebind_def)
    with parse_error_surfaces show ?thesis by blast
  qed
  have 2: "parse_schedule ''0 0 31 feb *'' = Inl DaysOutOfScope" by code_simp
  from 1 2 parse_error_surfaces [OF 2] show ?thesis by blast
qed

theorem infeasible_days_witness:
  "parse_fields ''0 0 31 feb *''
     = Inr \<lparr>values = [[0], [0], [31], [2], [0..6], [1970..2099]],
            last_day = False, last_weekday = False\<rparr>
   \<and> Min (set [31 :: int]) = 31
   \<and> get_next_datetime ''0 0 31 feb *''
        \<lparr>year = 2021, month = 4, day = 15, hour = 0, minute = 0, second = 0, microsecond = 0\<rparr>
      = Inl DaysOutOfScope"
proof -
  let ?s = "\<lparr>values = [[0], [0], [31], [2], [0..6], [1970..2099]],
            last_day = False, last_weekday = False\<rparr>"
  let ?now = "\<lparr>year = 2021, month = 4, day = 15, hour = 0, minute = 0, second = 0,
               microsecond = 0\<rparr>"
  have p: "parse_fields ''0 0 31 feb *'' = Inr ?s" by code_simp
  have v: "values ?s ! 2 = [31]" "values ?s ! 3 = [2]" by simp_all
  have m: "28 \<le> Min (set (values ?s ! 2))" unfolding v by simp
  have f: "\<forall>y \<in> set (values ?s ! 5). \<forall>m \<in> set (values ?s ! 3).
             days_in_month y m < Min (set (values ?s ! 2))"
    unfolding v by (simp add: days_in_month_def)
  from infeasible_days [of "''0 0 31 feb *''" ?s ?now] p m f
  have "get_next_datetime ''0 0 31 feb *'' ?now = Inl DaysOutOfScope" by blast
  with p show ?thesis by simp
qed

section \<open>Terms that do not parse\<close>

text \<open>
  C5 says that an unknown alias token such as \<^verbatim>\<open>foo\<close> raises. A term without \<^verbatim>\<open>-\<close> and
  \<^verbatim>\<open>/\<close> reaches only the last \<^verbatim>\<open>try\<close>, whose \<^verbatim>\<open>ValueError\<close> is passed over, in the way
  \<^verbatim>\<open>*\<close> is accepted: the schedule \<^verbatim>\<open>foo * * * * *\<close> parses, with every minute admissible,
  and the call returns an instant.
\<close>

theorem unknown_token_accepted:
  "parse_schedule ''foo * * * * *''
     = Inr \<lparr>values = [[0..59], [0..23], [1..31], [1..12], [0..6], [1970..2099]],
            last_day = False, last_weekday = False\<rparr>
   \<and> get_next_datetime ''foo * * * * *''
        \<lparr>year = 2021, month = 11, day = 10, hour = 0, minute = 0, second = 0,
         microsecond = 0\<rparr>
     = Inr (Some \<lparr>year = 2021, month = 11, day = 10, hour = 0, minute = 0, second = 0,
                  microsecond = 0\<rparr>)"
  by code_simp

text \<open>
  C5, as the code has it. No term contributes an empty list. A term with \<^verbatim>\<open>-\<close> raises
  unless it splits at \<^verbatim>\<open>-\<close> into two pieces, the first not empty, whose endpoints (the
  first without a leading \<^verbatim>\<open>l\<close>, the second up to a \<^verbatim>\<open>/\<close>) are integers or aliases. A
  term with \<^verbatim>\<open>/\<close> raises unless it splits at \<^verbatim>\<open>/\<close> into two pieces, the second an integer
  other than 0. A term with neither, not empty, that is no integer and no alias gives the
  whole domain. When a term of one of the six fields raises, parsing raises; and when
  parsing raises, the call raises the same error for every reference, before the seeds
  are built.
\<close>

theorem malformed_terms_raise:
  "(\<forall>is_last. parse_part (t, rng, al) part \<noteq> Inr (is_last, []))
   \<and> (CHR ''-'' \<in> set part
       \<and> \<not> (\<exists>a b. py_split (CHR ''-'') part = [a, b] \<and> a \<noteq> []
                \<and> (\<exists>n. resolve al (if hd a = CHR ''l'' then tl a else a) = Inr n)
                \<and> (\<exists>n. resolve al (hd (py_split (CHR ''/'') b)) = Inr n))
      \<longrightarrow> (\<exists>e. parse_part (t, rng, al) part = Inl e))
   \<and> (CHR ''/'' \<in> set part
       \<and> \<not> (\<exists>a b n. py_split (CHR ''/'') part = [a, b] \<and> py_int b = Inr n \<and> n \<noteq> 0)
      \<longrightarrow> (\<exists>e. parse_part (t, rng, al) part = Inl e))
   \<and> (CHR ''-'' \<notin> set part \<and> CHR ''/'' \<notin> set part \<and> part \<noteq> []
       \<and> resolve al (if hd part = CHR ''l'' then tl part else part) = Inl e
       \<and> fst rng \<le> snd rng
      \<longrightarrow> parse_part (t, rng, al) part = Inr (hd part = CHR ''l'', [fst rng..snd rng]))
   \<and> (i < 6 \<and> p \<in> set (py_split (CHR '','') (py_lower (split_notation crontab_notation ! i)))
       \<and> parse_part (cron_attributes ! i) p = Inl e
      \<longrightarrow> (\<exists>e'. parse_schedule crontab_notation = Inl e'))
   \<and> (parse_schedule crontab_notation = Inl e
      \<longrightarrow> get_next_datetime crontab_notation now_date = Inl e)"
proof -
  have 1: "\<forall>is_last. parse_part (t, rng, al) part \<noteq> Inr (is_last, [])"
    using parse_part_result(1) by blast
  have 2: "\<exists>e. parse_part (t, rng, al) part = Inl e"
    if "CHR ''-'' \<in> set part
       \<and> \<not> (\<exists>a b. py_split (CHR ''-'') part = [a, b] \<and> a \<noteq> []
                \<and> (\<exists>n. resolve al (if hd a = CHR ''l'' then tl a else a) = Inr n)
                \<and> (\<exists>n. resolve al (hd (py_split (CHR ''/'') b)) = Inr n))"
    using that range_term_parsed [of part t rng al]
    by (cases "parse_part (t, rng, al) part") blast+
  have 3: "\<exists>e. parse_part (t, rng, al) part = Inl e"
    if "CHR ''/'' \<in> set part
       \<and> \<not> (\<exists>a b n. py_split (CHR ''/'') part = [a, b] \<and> py_int b = Inr n \<and> n \<noteq> 0)"
    using that step_term_parsed [of part t rng al]
    by (cases "parse_part (t, rng, al) part") blast+
  have 4: "parse_part (t, rng, al) part = Inr (hd part = CHR ''l'', [fst rng..snd rng])"
    if "CHR ''-'' \<notin> set part \<and> CHR ''/'' \<notin> set part \<and> part \<noteq> []
       \<and> resolve al (if hd part = CHR ''l'' then tl part else part) = Inl e
       \<and> fst rng \<le> snd rng"
    using that bare_token by blast
  have 5: "\<exists>e'. parse_schedule crontab_notation = Inl e'"
    if h: "i < 6 \<and> p \<in> set (py_split (CHR '','') (py_lower (split_notation crontab_notation ! i)))
       \<and> parse_part (cron_attributes ! i) p = Inl e"
  proof (cases "parse_schedule crontab_notation")
    case (Inl e')
    then show ?thesis by blast
  next
    case (Inr s)
    from parse_fields_result(5) [OF parse_schedule_fields [OF Inr], of i p] h
    show ?thesis by auto
  qed
  have 6: "get_next_datetime crontab_notation now_date = Inl e"
    if "parse_schedule crontab_notation = Inl e"
    using that by (rule parse_error_surfaces)
  from 1 2 3 4 5 6 show ?thesis by blast
qed

theorem malformed_terms_raise_witness:
  "parse_part (Minute, (0, 59), []) ''a-b'' = Inl ValueError
   \<and> parse_part (Minute, (0, 59), []) ''*/x'' = Inl ValueError
   \<and> parse_part (Minute, (0, 59), []) ''foo'' = Inr (False, [0..59])
   \<and> parse_part (cron_attributes ! 2) ''*/0'' = Inl ZeroDivisionError
   \<and> parse_schedule ''0 0 */0 * *'' = Inl ZeroDivisionError
   \<and> get_next_datetime ''0 0 */0 * *''
        \<lparr>year = 2021, month = 11, day = 10, hour = 0, minute = 0, second = 0,
         microsecond = 0\<rparr> = Inl ZeroDivisionError"
proof -
  let ?m = "(Minute, (0 :: int, 59 :: int), [] :: (string \<times> int) list)"
  let ?n = "''0 0 */0 * *''"
  let ?now = "\<lparr>year = 2021, month = 11, day = 10, hour = 0, minute = 0, second = 0,
               microsecond = 0\<rparr>"
  have r: "CHR ''-'' \<in> set ''a-b''
       \<and> \<not> (\<exists>a b. py_split (CHR ''-'') ''a-b'' = [a, b] \<and> a \<noteq> []
                \<and> (\<exists>n. resolve [] (if hd a = CHR ''l'' then tl a else a) = Inr n)
                \<and> (\<exists>n. resolve [] (hd (py_split (CHR ''/'') b)) = Inr n))"
  proof -
    have "resolve [] ''a'' = Inl ValueError" by code_simp
    then show ?thesis by auto
  qed
  from malformed_terms_raise [of Minute "(0, 59)" "[]" "''a-b''"] r
  have "\<exists>e. parse_part ?m ''a-b'' = Inl e" by blast
  moreover have "parse_part ?m ''a-b'' = Inl ValueError" by code_simp
  ultimately have 1: "parse_part ?m ''a-b'' = Inl ValueError" by blast
  have s: "CHR ''/'' \<in> set ''*/x''
       \<and> \<not> (\<exists>a b n. py_split (CHR ''/'') ''*/x'' = [a, b] \<and> py_int b = Inr n \<and> n \<noteq> 0)"
  proof -
    have "py_int ''x'' = Inl ValueError" by code_simp
    then show ?thesis by auto
  qed
  from malformed_terms_raise [of Minute "(0, 59)" "[]" "''*/x''"] s
  have "\<exists>e. parse_part ?m ''*/x'' = Inl e" by blast
  moreover have "parse_part ?m ''*/x'' = Inl ValueError" by code_simp
  ultimately have 2: "parse_part ?m ''*/x'' = Inl ValueError" by blast
  have b: "CHR ''-'' \<notin> set ''foo'' \<and> CHR ''/'' \<notin> set ''foo'' \<and> ''foo'' \<noteq> []
       \<and> resolve [] (if hd ''foo'' = CHR ''l'' then tl ''foo'' else ''foo'') = Inl ValueError
       \<and> fst (0 :: int, 59 :: int) \<le> snd (0 :: int, 59 :: int)"
  proof -
    have "resolve [] ''foo'' = Inl ValueError" by code_simp
    then show ?thesis by simp
  qed
  from malformed_terms_raise [of Minute "(0, 59)" "[]" "''foo''" ValueError] b
  have 3: "parse_part ?m ''foo'' = Inr (False, [0..59])" by simp
  have t: "(2 :: nat) < 6 \<and> ''*/0'' \<in> set (py_split (CHR '','') (py_lower (split_notation ?n ! 2)))
      \<and> parse_part (cron_attributes ! 2) ''*/0'' = Inl ZeroDivisionError"
    by code_simp
  from malformed_terms_raise
         [where i = 2 and p = "''*/0''" and crontab_notation = ?n and e = ZeroDivisionError] t
  have "\<exists>e'. parse_schedule ?n = Inl e'" by blast
  moreover have "parse_schedule ?n = Inl ZeroDivisionError" by code_simp
  ultimately have 5: "parse_schedule ?n = Inl ZeroDivisionError" by blast
  from malformed_terms_raise
         [where crontab_notation = ?n and e = ZeroDivisionError and now_date = ?now] 5
  have 6: "get_next_datetime ?n ?now = Inl ZeroDivisionError" by blast
  from 1 2 3 t 5 6 show ?thesis by blast
qed

section \<open>Steps over the whole domain\<close>

text \<open>
  C6 says that \<^verbatim>\<open>*/S\<close> yields every \<open>S\<close>-th value starting at the domain's minimum,
  also where that minimum is not 0. The code keeps the multiples of \<open>S\<close>: for the day of
  the month \<^verbatim>\<open>*/2\<close> yields 2, 4, \<dots>, 30 and not 1, 3, \<dots>, 31.
\<close>

theorem step_not_from_minimum:
  "parse_part (cron_attributes ! 2) ''*/2''
     = Inr (False, [2, 4, 6, 8, 10, 12, 14, 16, 18, 20, 22, 24, 26, 28, 30])
   \<and> every_nth_from_min (fst (snd (cron_attributes ! 2))) 2
     = [1, 3, 5, 7, 9, 11, 13, 15, 17, 19, 21, 23, 25, 27, 29, 31]"
  by code_simp

text \<open>
  C6, as the code has it. For every field and every step written as an integer without a
  minus sign, \<^verbatim>\<open>*/S\<close> and \<^verbatim>\<open>?/S\<close> parse to the values of the domain that are multiples of
  \<open>S\<close>; a step of 0 raises \<^verbatim>\<open>ZeroDivisionError\<close> and a domain without a multiple raises
  the error for invalid values. The multiples are every \<open>S\<close>-th value from the minimum
  where the minimum is itself a multiple of \<open>S\<close>.
\<close>

theorem star_step_values:
  "((t, rng, al) \<in> set cron_attributes \<and> (c = CHR ''*'' \<or> c = CHR ''?'')
      \<and> py_int st = Inr n \<and> CHR ''-'' \<notin> set st
    \<longrightarrow> parse_part (t, rng, al) (c # CHR ''/'' # st)
         = (if n = 0 then Inl ZeroDivisionError
            else if filter (\<lambda>x. x mod n = 0) [fst rng..snd rng] = [] then Inl (InvalidValues t)
            else Inr (False, filter (\<lambda>x. x mod n = 0) [fst rng..snd rng])))
   \<and> set (filter (\<lambda>x. x mod n = 0) [fst rng..snd rng])
       = {v. fst rng \<le> v \<and> v \<le> snd rng \<and> v mod n = 0}
   \<and> (fst rng mod n = 0
      \<longrightarrow> filter (\<lambda>x. x mod n = 0) [fst rng..snd rng] = every_nth_from_min rng n)"
proof -
  have 1: "parse_part (t, rng, al) (c # CHR ''/'' # st)
         = (if n = 0 then Inl ZeroDivisionError
            else if filter (\<lambda>x. x mod n = 0) [fst rng..snd rng] = [] then Inl (InvalidValues t)
            else Inr (False, filter (\<lambda>x. x mod n = 0) [fst rng..snd rng]))"
    if "(t, rng, al) \<in> set cron_attributes \<and> (c = CHR ''*'' \<or> c = CHR ''?'')
      \<and> py_int st = Inr n \<and> CHR ''-'' \<notin> set st"
    using that star_step [of t rng al c st n] by blast
  have 2: "set (filter (\<lambda>x. x mod n = 0) [fst rng..snd rng])
       = {v. fst rng \<le> v \<and> v \<le> snd rng \<and> v mod n = 0}"
    by auto
  have 3: "filter (\<lambda>x. x mod n = 0) [fst rng..snd rng] = every_nth_from_min rng n"
    if "fst rng mod n = 0"
    using that by (rule every_nth_multiple)
  from 1 2 3 show ?thesis by blast
qed

theorem star_step_values_witness:
  "(Day, (1, 31), []) \<in> set cron_attributes \<and> py_int ''2'' = Inr 2
   \<and> parse_part (Day, (1, 31), []) ''*/2''
      = Inr (False, [2, 4, 6, 8, 10, 12, 14, 16, 18, 20, 22, 24, 26, 28, 30])
   \<and> fst (0 :: int, 59 :: int) mod 15 = 0
   \<and> every_nth_from_min (0, 59) 15 = [0, 15, 30, 45]"
proof -
  have a: "(Day, (1, 31), []) \<in> set cron_attributes" by (simp add: cron_attributes_def)
  have i: "py_int ''2'' = Inr 2" by code_simp
  have f: "filter (\<lambda>x. x mod 2 = 0) [fst (1 :: int, 31 :: int)..snd (1 :: int, 31 :: int)]
           = [2, 4, 6, 8, 10, 12, 14, 16, 18, 20, 22, 24, 26, 28, 30]"
    by code_simp
  from star_step_values [of Day "(1, 31)" "[]" "CHR ''*''" "''2''" 2] a i
  have "parse_part (Day, (1, 31), []) ''*/2''
        = (if (2 :: int) = 0 then Inl ZeroDivisionError
           else if filter (\<lambda>x. x mod 2 = 0) [fst (1 :: int, 31 :: int)..snd (1 :: int, 31 :: int)] = []
                then Inl (InvalidValues Day)
           else Inr (False, filter (\<lambda>x. x mod 2 = 0) [fst (1 :: int, 31 :: int)..snd (1 :: int, 31 :: int)]))"
    by simp
  then have p: "parse_part (Day, (1, 31), []) ''*/2''
      = Inr (False, [2, 4, 6, 8, 10, 12, 14, 16, 18, 20, 22, 24, 26, 28, 30])"
    unfolding f by simp
  have m: "fst (0 :: int, 59 :: int) mod 15 = 0" by simp
  have g: "filter (\<lambda>x. x mod 15 = 0) [fst (0 :: int, 59 :: int)..snd (0 :: int, 59 :: int)]
           = [0, 15, 30, 45]"
    by code_simp
  from star_step_values [of t "(0, 59)" al c st 15] m
  have "filter (\<lambda>x. x mod 15 = 0) [fst (0 :: int, 59 :: int)..snd (0 :: int, 59 :: int)]
        = every_nth_from_min (0, 59) 15"
    by blast
  then have e: "every_nth_from_min (0, 59) 15 = [0, 15, 30, 45]" unfolding g by simp
  from a i p m e show ?thesis by blast
qed

section \<open>Years that have passed\<close>

text \<open>
  C7 (when every year of the schedule is before the year of the reference, the call
  returns \<^verbatim>\<open>None\<close> and raises nothing). For a reference in a year up to 9998 this is
  lemma \<open>past_years_general\<close>: no seed finds a year, and every seed's search ends. For a
  reference in the year 9999 it fails. The seeds for the next minute, hour, day and month
  are built under a guard that keeps their constructor in range; the seed for the next
  year, \<^verbatim>\<open>datetime.datetime(now_date.year + 1, 1, 1)\<close>, is built without one. The schedule
  \<^verbatim>\<open>* * * * * 2000\<close> has the single year 2000, and the call from the reference
  9999-11-10T00:00:00 raises \<^verbatim>\<open>ValueError\<close> where \<^verbatim>\<open>None\<close> is due.
\<close>

theorem past_years_raise_at_9999:
  "(case parse_schedule ''* * * * * 2000'' of
      Inr s \<Rightarrow> values s ! 5 = [2000]
    | Inl e \<Rightarrow> False)
   \<and> valid_datetime \<lparr>year = 9999, month = 11, day = 10, hour = 0, minute = 0, second = 0,
                      microsecond = 0\<rparr>
   \<and> get_next_datetime ''* * * * * 2000''
        \<lparr>year = 9999, month = 11, day = 10, hour = 0, minute = 0, second = 0,
         microsecond = 0\<rparr> = Inl ValueError"
  by code_simp

section \<open>Leap years\<close>

text \<open>
  C8. For the schedule \<^verbatim>\<open>0 0 29 2 *\<close>, the call from the naive reference
  2023-01-01T00:00:00 returns 2024-02-29T00:00, and the call from the naive reference
  2024-03-01T00:00:00 returns 2028-02-29T00:00: every day of a year without a 29th of
  February is abandoned and retried.
\<close>

theorem leap_year_examples:
  "get_next_datetime ''0 0 29 2 *''
     \<lparr>year = 2023, month = 1, day = 1, hour = 0, minute = 0, second = 0, microsecond = 0\<rparr>
   = Inr (Some \<lparr>year = 2024, month = 2, day = 29, hour = 0, minute = 0, second = 0,
                microsecond = 0\<rparr>)
   \<and> get_next_datetime ''0 0 29 2 *''
     \<lparr>year = 2024, month = 3, day = 1, hour = 0, minute = 0, second = 0, microsecond = 0\<rparr>
   = Inr (Some \<lparr>year = 2028, month = 2, day = 29, hour = 0, minute = 0, second = 0,
                microsecond = 0\<rparr>)"
  by (simp add: get_next_datetime_def parse_leap_day seeds_def optional_def mk_datetime_def
        monthrange_days_def days_in_month_def is_leap_def ebind_def leap_day_from_2023
        leap_day_from_2024 leap_day_2024 leap_day_2028 valid_datetime_def datetime_min_def datetime_less_def timetuple_def)

section \<open>The last day of the month\<close>

text \<open>
  C9. The flag \<^verbatim>\<open>last_day\<close> is set exactly when a term of the day field begins with
  \<^verbatim>\<open>l\<close>. When it is set, every instant the call returns is on the last day of its month.
  For the schedule \<^verbatim>\<open>0 0 l * *\<close> the call from the naive reference 2021-04-15T00:00:00
  returns 2021-04-30T00:00:00.
\<close>

theorem last_day_modifier:
  "(parse_schedule crontab_notation = Inr s \<longrightarrow>
      last_day s = (\<exists>part \<in> set (py_split (CHR '','') (py_lower (split_notation crontab_notation ! 2))).
                      hd part = CHR ''l''))
   \<and> (parse_schedule crontab_notation = Inr s \<and> last_day s
        \<and> get_next_datetime crontab_notation now_date = Inr (Some t)
      \<longrightarrow> day t = days_in_month (year t) (month t))
   \<and> get_next_datetime ''0 0 l * *''
        \<lparr>year = 2021, month = 4, day = 15, hour = 0, minute = 0, second = 0, microsecond = 0\<rparr>
      = Inr (Some \<lparr>year = 2021, month = 4, day = 30, hour = 0, minute = 0, second = 0,
                   microsecond = 0\<rparr>)"
proof (intro conjI impI)
  assume "parse_schedule crontab_notation = Inr s"
  from parse_fields_result(3) [OF parse_schedule_fields [OF this]]
  show "last_day s = (\<exists>part \<in> set (py_split (CHR '','') (py_lower (split_notation crontab_notation ! 2))).
                      hd part = CHR ''l'')" .
next
  assume a: "parse_schedule crontab_notation = Inr s \<and> last_day s
        \<and> get_next_datetime crontab_notation now_date = Inr (Some t)"
  then have "satisfies s t" using result_satisfies by blast
  with a show "day t = days_in_month (year t) (month t)" by (simp add: satisfies_def)
next
  show "get_next_datetime ''0 0 l * *''
        \<lparr>year = 2021, month = 4, day = 15, hour = 0, minute = 0, second = 0, microsecond = 0\<rparr>
      = Inr (Some \<lparr>year = 2021, month = 4, day = 30, hour = 0, minute = 0, second = 0,
                   microsecond = 0\<rparr>)"
    by code_simp
qed

theorem last_day_modifier_witness:
  "parse_schedule ''0 0 l * *''
     = Inr \<lparr>values = [[0], [0], [1..31], [1..12], [0..6], [1970..2099]],
            last_day = True, last_weekday = False\<rparr>
   \<and> list_ex (\<lambda>part. hd part = CHR ''l'')
        (py_split (CHR '','') (py_lower (split_notation ''0 0 l * *'' ! 2)))
   \<and> get_next_datetime ''0 0 l * *''
        \<lparr>year = 2021, month = 4, day = 15, hour = 0, minute = 0, second = 0, microsecond = 0\<rparr>
      = Inr (Some \<lparr>year = 2021, month = 4, day = 30, hour = 0, minute = 0, second = 0,
                   microsecond = 0\<rparr>)
   \<and> day \<lparr>year = 2021, month = 4, day = 30, hour = 0, minute = 0, second = 0,
           microsecond = 0\<rparr> = days_in_month 2021 4"
proof -
  let ?s = "\<lparr>values = [[0], [0], [1..31], [1..12], [0..6], [1970..2099]],
            last_day = True, last_weekday = False\<rparr>"
  let ?now = "\<lparr>year = 2021, month = 4, day = 15, hour = 0, minute = 0, second = 0,
               microsecond = 0\<rparr>"
  let ?t = "\<lparr>year = 2021, month = 4, day = 30, hour = 0, minute = 0, second = 0,
             microsecond = 0\<rparr>"
  have p: "parse_schedule ''0 0 l * *'' = Inr ?s" by code_simp
  have l: "last_day ?s" by simp
  have e: "list_ex (\<lambda>part. hd part = CHR ''l'')
        (py_split (CHR '','') (py_lower (split_notation ''0 0 l * *'' ! 2)))"
    by code_simp
  have g: "get_next_datetime ''0 0 l * *'' ?now = Inr (Some ?t)" by code_simp
  have d: "day ?t = days_in_month 2021 4"
    using last_day_modifier [of "''0 0 l * *''" ?s ?now ?t] p l g by simp
  from p e g d show ?thesis by simp
qed

section \<open>More than six fields\<close>

text \<open>
  C10. A schedule string with more than six whitespace-separated fields is parsed as the
  string of its first six fields: the parsing loop reads the fields 0 to 5 only, and no
  macro has more than one field. So both strings parse to the same schedule or raise the
  same error, and the call gives the same result for every reference.
\<close>

theorem extra_fields_ignored:
  "6 < length (py_split_ws crontab_notation) \<longrightarrow>
     parse_schedule crontab_notation
       = parse_schedule (join_fields (take 6 (py_split_ws crontab_notation)))
     \<and> get_next_datetime crontab_notation now_date
       = get_next_datetime (join_fields (take 6 (py_split_ws crontab_notation))) now_date"
  using extra_fields_general [of crontab_notation]
  by (simp add: get_next_datetime_def parse_schedule_def)

theorem extra_fields_ignored_witness:
  "6 < length (py_split_ws ''0 0 29 2 * 2024 extra words'')
   \<and> join_fields (take 6 (py_split_ws ''0 0 29 2 * 2024 extra words'')) = ''0 0 29 2 * 2024''
   \<and> get_next_datetime ''0 0 29 2 * 2024 extra words''
        \<lparr>year = 2021, month = 4, day = 15, hour = 0, minute = 0, second = 0, microsecond = 0\<rparr>
     = get_next_datetime ''0 0 29 2 * 2024''
        \<lparr>year = 2021, month = 4, day = 15, hour = 0, minute = 0, second = 0, microsecond = 0\<rparr>"
proof -
  let ?n = "''0 0 29 2 * 2024 extra words''"
  let ?now = "\<lparr>year = 2021, month = 4, day = 15, hour = 0, minute = 0, second = 0,
               microsecond = 0\<rparr>"
  have h: "6 < length (py_split_ws ?n)" by code_simp
  have j: "join_fields (take 6 (py_split_ws ?n)) = ''0 0 29 2 * 2024''" by code_simp
  from extra_fields_ignored [of ?n ?now] h
  have "get_next_datetime ?n ?now
        = get_next_datetime (join_fields (take 6 (py_split_ws ?n))) ?now"
    by blast
  then have "get_next_datetime ?n ?now = get_next_datetime ''0 0 29 2 * 2024'' ?now"
    by (simp only: j)
  with h j show ?thesis by blast
qed

end
